theory Spec2Isabelle
  imports Main "HOL-Library.Log_Nat"
begin

section \<open>Python values\<close>

text \<open>
  The utilities of PocketPulse (\<^verbatim>\<open>src/utils\<close>) are pure Python functions over strings, numbers
  and \<^verbatim>\<open>datetime\<close> values. Each function is embedded as a HOL function of the same name;
  an exception that may leave a function is a value \<open>Inl e\<close> of a sum type, and \<open>ebind\<close>
  passes the first exception on, as Python does.
\<close>

datatype pyerror = ValueError | TypeError | OverflowError | IndexError | InvalidOperation

definition ebind :: "'e + 'a \<Rightarrow> ('a \<Rightarrow> 'e + 'b) \<Rightarrow> 'e + 'b" where
  "ebind r f = (case r of Inl e \<Rightarrow> Inl e | Inr v \<Rightarrow> f v)"

subsection \<open>Strings\<close>

text \<open>
  A Python \<^verbatim>\<open>str\<close> is a sequence of Unicode code points, modelled as a list of integers.
  \<open>ustr\<close> turns a HOL string literal into such a list. The classification of white space
  (\<^verbatim>\<open>str.isspace\<close>, the class \<^verbatim>\<open>\s\<close> of \<^verbatim>\<open>re\<close>) is given in full. The case mappings and the
  digit classes are far larger tables of the Unicode database; the definitions below give
  them on the ASCII range, together with the entry of U+0149 whose title case form is the
  two code points U+02BC U+004E. Statements that depend on the case mappings are made for
  ASCII text.
\<close>

type_synonym pystr = "int list"

definition ustr :: "string \<Rightarrow> pystr" where
  "ustr s = map of_char s"

definition ascii :: "pystr \<Rightarrow> bool" where
  "ascii s \<longleftrightarrow> list_all (\<lambda>c. 0 \<le> c \<and> c < 128) s"

text \<open>\<^verbatim>\<open>str.isspace\<close>: the code points with bidirectional class WS, B or S, or of category Zs.\<close>

definition py_isspace :: "int \<Rightarrow> bool" where
  "py_isspace c \<longleftrightarrow>
     (9 \<le> c \<and> c \<le> 13) \<or> (28 \<le> c \<and> c \<le> 32) \<or> c = 133 \<or> c = 160 \<or> c = 5760 \<or>
     (8192 \<le> c \<and> c \<le> 8202) \<or> c = 8232 \<or> c = 8233 \<or> c = 8239 \<or> c = 8287 \<or> c = 12288"

text \<open>\<^verbatim>\<open>s.strip()\<close> removes leading and trailing white space.\<close>

definition py_strip :: "pystr \<Rightarrow> pystr" where
  "py_strip s = rev (dropWhile py_isspace (rev (dropWhile py_isspace s)))"

text \<open>
  \<^verbatim>\<open>s.split()\<close> with no separator: the maximal runs of characters that are not white space.
\<close>

function py_split :: "pystr \<Rightarrow> pystr list" where
  "py_split s =
     (let s' = dropWhile py_isspace s in
      if s' = [] then []
      else takeWhile (\<lambda>x. \<not> py_isspace x) s' # py_split (dropWhile (\<lambda>x. \<not> py_isspace x) s'))"
  by pat_completeness auto

termination
proof (relation "measure length")
  show "wf (measure length)" by simp
next
  fix s s' :: pystr
  assume a: "s' = dropWhile py_isspace s" and b: "s' \<noteq> []"
  obtain c cs where c: "s' = c # cs" using b by (cases s') simp_all
  have "\<not> py_isspace (hd s')"
    unfolding a using a b hd_dropWhile [of py_isspace s] by blast
  then have "\<not> py_isspace c" unfolding c by simp
  then have "dropWhile (\<lambda>x. \<not> py_isspace x) s' = dropWhile (\<lambda>x. \<not> py_isspace x) cs"
    using c by simp
  then have "length (dropWhile (\<lambda>x. \<not> py_isspace x) s') < length s'"
    using length_dropWhile_le [of "\<lambda>x. \<not> py_isspace x" cs] c by simp
  moreover have "length s' \<le> length s"
    using length_dropWhile_le [of py_isspace s] a by simp
  ultimately show "(dropWhile (\<lambda>x. \<not> py_isspace x) s', s) \<in> measure length"
    by simp
qed

declare py_split.simps [simp del]

text \<open>\<^verbatim>\<open>sep.join(words)\<close>, and the substring test \<^verbatim>\<open>pattern in text\<close>.\<close>

fun py_join :: "pystr \<Rightarrow> pystr list \<Rightarrow> pystr" where
  "py_join sep [] = []"
| "py_join sep [w] = w"
| "py_join sep (w # v # ws) = w @ sep @ py_join sep (v # ws)"

fun py_in :: "pystr \<Rightarrow> pystr \<Rightarrow> bool" where
  "py_in p [] = (p = [])"
| "py_in p (c # cs) = (take (length p) (c # cs) = p \<or> py_in p cs)"

text \<open>
  \<^verbatim>\<open>s.lower()\<close> maps every code point to its lower case form, and \<^verbatim>\<open>s.capitalize()\<close> puts the
  first code point into title case and the rest into lower case. Both forms can be longer
  than one code point.
\<close>

definition lower_cp :: "int \<Rightarrow> pystr" where
  "lower_cp c = (if 65 \<le> c \<and> c \<le> 90 then [c + 32] else [c])"

definition title_cp :: "int \<Rightarrow> pystr" where
  "title_cp c = (if 97 \<le> c \<and> c \<le> 122 then [c - 32] else if c = 329 then [700, 78] else [c])"

definition py_lower :: "pystr \<Rightarrow> pystr" where
  "py_lower s = concat (map lower_cp s)"

definition py_capitalize :: "pystr \<Rightarrow> pystr" where
  "py_capitalize s = (case s of [] \<Rightarrow> [] | c # cs \<Rightarrow> title_cp c @ py_lower cs)"

text \<open>
  \<^verbatim>\<open>str.isdigit\<close> on the code points below 256: the ASCII digits and the superscripts. The
  digits of the other scripts are not in this table; statements about \<^verbatim>\<open>isdigit\<close> are
  made for ASCII text.
\<close>

definition py_isdigit :: "int \<Rightarrow> bool" where
  "py_isdigit c \<longleftrightarrow> (48 \<le> c \<and> c \<le> 57) \<or> c = 178 \<or> c = 179 \<or> c = 185"

text \<open>
  The slice \<^verbatim>\<open>xs[:n]\<close>: the first \<open>n\<close> elements, and for a negative \<open>n\<close> all but the last
  \<open>-n\<close> elements.
\<close>

definition py_slice_to :: "'a list \<Rightarrow> int \<Rightarrow> 'a list" where
  "py_slice_to xs n = (if 0 \<le> n then take (nat n) xs else take (length xs - nat (- n)) xs)"

subsection \<open>Dates and times\<close>

text \<open>
  A naive \<^verbatim>\<open>datetime\<close> is a record of its seven fields. The proleptic Gregorian calendar
  follows the reference implementation of the standard library: the tables of month
  lengths, \<^verbatim>\<open>_is_leap\<close>, \<^verbatim>\<open>_days_before_year\<close>, \<^verbatim>\<open>_days_in_month\<close>, \<^verbatim>\<open>_days_before_month\<close>,
  \<^verbatim>\<open>_ymd2ord\<close> and \<^verbatim>\<open>_ord2ymd\<close>. Years run from 1 to 9999, ordinals from 1 to 3652059.
\<close>

record datetime =
  year :: int
  month :: int
  day :: int
  hour :: int
  minute :: int
  second :: int
  microsecond :: int

definition dt_of :: "int \<Rightarrow> int \<Rightarrow> int \<Rightarrow> int \<Rightarrow> int \<Rightarrow> int \<Rightarrow> int \<Rightarrow> datetime" where
  "dt_of y mo d h mi s us =
     \<lparr>year = y, month = mo, day = d, hour = h, minute = mi, second = s, microsecond = us\<rparr>"

definition MINYEAR :: int where "MINYEAR = 1"

definition MAXYEAR :: int where "MAXYEAR = 9999"

definition MAXORDINAL :: int where "MAXORDINAL = 3652059"

definition DAYS_IN_MONTH :: "int list" where
  "DAYS_IN_MONTH = [-1, 31, 28, 31, 30, 31, 30, 31, 31, 30, 31, 30, 31]"

definition DAYS_BEFORE_MONTH :: "int list" where
  "DAYS_BEFORE_MONTH = [-1, 0, 31, 59, 90, 120, 151, 181, 212, 243, 273, 304, 334]"

definition is_leap :: "int \<Rightarrow> bool" where
  "is_leap y \<longleftrightarrow> y mod 4 = 0 \<and> (y mod 100 \<noteq> 0 \<or> y mod 400 = 0)"

definition days_before_year :: "int \<Rightarrow> int" where
  "days_before_year y = (let y = y - 1 in y * 365 + y div 4 - y div 100 + y div 400)"

definition days_in_month :: "int \<Rightarrow> int \<Rightarrow> int" where
  "days_in_month y m = (if m = 2 \<and> is_leap y then 29 else DAYS_IN_MONTH ! nat m)"

definition days_before_month :: "int \<Rightarrow> int \<Rightarrow> int" where
  "days_before_month y m = DAYS_BEFORE_MONTH ! nat m + (if m > 2 \<and> is_leap y then 1 else 0)"

definition ymd2ord :: "int \<Rightarrow> int \<Rightarrow> int \<Rightarrow> int" where
  "ymd2ord y m d = days_before_year y + days_before_month y m + d"

definition ord2ymd :: "int \<Rightarrow> int \<times> int \<times> int" where
  "ord2ymd n =
     (let n = n - 1;
          n400 = n div 146097; n = n mod 146097;
          y = n400 * 400 + 1;
          n100 = n div 36524; n = n mod 36524;
          n4 = n div 1461; n = n mod 1461;
          n1 = n div 365; n = n mod 365;
          y = y + n100 * 100 + n4 * 4 + n1
      in if n1 = 4 \<or> n100 = 4 then (y - 1, 12, 31)
         else
           let leapyear = (n1 = 3 \<and> (n4 \<noteq> 24 \<or> n100 = 3));
               m = (n + 50) div 32;
               preceding = DAYS_BEFORE_MONTH ! nat m + (if m > 2 \<and> leapyear then 1 else 0);
               (m, preceding) =
                  (if preceding > n
                   then (m - 1, preceding - (DAYS_IN_MONTH ! nat (m - 1)
                                              + (if m - 1 = 2 \<and> leapyear then 1 else 0)))
                   else (m, preceding))
           in (y, m, n - preceding + 1))"

text \<open>
  The constructor, and with it \<^verbatim>\<open>replace\<close>, raises \<^verbatim>\<open>ValueError\<close> on a field out of range.
\<close>

definition valid_date :: "int \<Rightarrow> int \<Rightarrow> int \<Rightarrow> bool" where
  "valid_date y m d \<longleftrightarrow>
     MINYEAR \<le> y \<and> y \<le> MAXYEAR \<and> 1 \<le> m \<and> m \<le> 12 \<and> 1 \<le> d \<and> d \<le> days_in_month y m"

definition valid_datetime :: "datetime \<Rightarrow> bool" where
  "valid_datetime dt \<longleftrightarrow>
     valid_date (year dt) (month dt) (day dt)
     \<and> 0 \<le> hour dt \<and> hour dt < 24 \<and> 0 \<le> minute dt \<and> minute dt < 60
     \<and> 0 \<le> second dt \<and> second dt < 60 \<and> 0 \<le> microsecond dt \<and> microsecond dt < 1000000"

definition checked :: "datetime \<Rightarrow> pyerror + datetime" where
  "checked dt = (if valid_datetime dt then Inr dt else Inl ValueError)"

definition toordinal :: "datetime \<Rightarrow> int" where
  "toordinal dt = ymd2ord (year dt) (month dt) (day dt)"

definition weekday :: "datetime \<Rightarrow> int" where
  "weekday dt = (toordinal dt + 6) mod 7"

text \<open>
  A \<^verbatim>\<open>timedelta\<close> is a number of microseconds whose days lie within 999999999 of zero.
  Adding one to a \<^verbatim>\<open>datetime\<close> counts microseconds from the ordinal and the time of day,
  and raises \<^verbatim>\<open>OverflowError\<close> when the day leaves the range of ordinals. Comparison is
  that of the tuples of fields.
\<close>

definition timedelta :: "int \<Rightarrow> int \<Rightarrow> int \<Rightarrow> int \<Rightarrow> int \<Rightarrow> pyerror + int" where
  "timedelta days hours minutes seconds microseconds =
     (let us = (((days * 24 + hours) * 60 + minutes) * 60 + seconds) * 1000000 + microseconds;
          d = us div 86400000000
      in if - 999999999 \<le> d \<and> d \<le> 999999999 then Inr us else Inl OverflowError)"

definition datetime_add :: "datetime \<Rightarrow> int \<Rightarrow> pyerror + datetime" where
  "datetime_add dt delta =
     (let t = (((toordinal dt * 24 + hour dt) * 60 + minute dt) * 60 + second dt) * 1000000
                + microsecond dt + delta;
          days = t div 86400000000;
          r = t mod 86400000000
      in if 0 < days \<and> days \<le> MAXORDINAL then
           (case ord2ymd days of (y, m, d) \<Rightarrow>
              Inr \<lparr>year = y, month = m, day = d,
                   hour = r div 3600000000, minute = r div 60000000 mod 60,
                   second = r div 1000000 mod 60, microsecond = r mod 1000000\<rparr>)
         else Inl OverflowError)"

definition datetime_sub :: "datetime \<Rightarrow> int \<Rightarrow> pyerror + datetime" where
  "datetime_sub dt delta = datetime_add dt (- delta)"

fun lex_le :: "int list \<Rightarrow> int list \<Rightarrow> bool" where
  "lex_le [] ys = True"
| "lex_le (x # xs) [] = False"
| "lex_le (x # xs) (y # ys) = (x < y \<or> (x = y \<and> lex_le xs ys))"

definition datetime_le :: "datetime \<Rightarrow> datetime \<Rightarrow> bool" where
  "datetime_le a b =
     lex_le [year a, month a, day a, hour a, minute a, second a, microsecond a]
            [year b, month b, day b, hour b, minute b, second b, microsecond b]"

definition time_of_day :: "datetime \<Rightarrow> int" where
  "time_of_day dt = ((hour dt * 60 + minute dt) * 60 + second dt) * 1000000 + microsecond dt"

definition instant :: "datetime \<Rightarrow> int" where
  "instant dt = toordinal dt * 86400000000 + time_of_day dt"

subsection \<open>Floating point numbers\<close>

text \<open>
  A Python \<^verbatim>\<open>float\<close> is an IEEE 754 double: a finite value, which is a rational number, one
  of the two infinities, or a NaN. The sign of a zero is not kept; no function below
  observes it. \<open>double_round\<close> is the double nearest to a rational number, ties going to the
  even significand of 53 bits, with the subnormal numbers spaced \<open>2 powi - 1074\<close> apart;
  \<open>ilog2\<close> is the exponent of the leading bit.
\<close>

datatype pyfloat = Finite rat | PosInf | NegInf | NaN

definition round_half_even :: "rat \<Rightarrow> int" where
  "round_half_even q =
     (let f = \<lfloor>q\<rfloor>; r = q - of_int f
      in if r < 1 / 2 then f else if 1 / 2 < r then f + 1 else if even f then f else f + 1)"

definition ilog2 :: "rat \<Rightarrow> int" where
  "ilog2 q = (case quotient_of q of (n, d) \<Rightarrow>
                let k = bitlen n - bitlen d in if 2 powi k \<le> q then k else k - 1)"

definition double_round :: "rat \<Rightarrow> rat" where
  "double_round q =
     (if q = 0 then 0
      else let e = max (ilog2 \<bar>q\<bar> - 52) (- 1074);
               m = round_half_even (\<bar>q\<bar> / 2 powi e)
           in sgn q * of_int m * 2 powi e)"

text \<open>
  The conversion of a numeral or of a \<^verbatim>\<open>Decimal\<close> rounds to the nearest double and gives an
  infinity beyond the largest one; \<^verbatim>\<open>float(n)\<close> of an \<^verbatim>\<open>int\<close> raises \<^verbatim>\<open>OverflowError\<close>
  there. \<open>float_le x c\<close> and \<open>float_gt x c\<close> are the comparisons \<^verbatim>\<open>x <= c\<close> and \<^verbatim>\<open>x > c\<close> with a
  number, both false on a NaN. \<open>py_round2\<close> is \<^verbatim>\<open>round(x, 2)\<close>: the value of \<open>x\<close> rounded to
  two decimals, ties to even, and converted back.
\<close>

definition float_of_rat :: "rat \<Rightarrow> pyfloat" where
  "float_of_rat q =
     (let x = double_round q
      in if 2 ^ 1024 \<le> \<bar>x\<bar> then (if 0 < q then PosInf else NegInf) else Finite x)"

definition float_of_int :: "int \<Rightarrow> pyerror + pyfloat" where
  "float_of_int n =
     (let x = double_round (of_int n)
      in if 2 ^ 1024 \<le> \<bar>x\<bar> then Inl OverflowError else Inr (Finite x))"

definition float_le :: "pyfloat \<Rightarrow> rat \<Rightarrow> bool" where
  "float_le x c = (case x of Finite v \<Rightarrow> v \<le> c | NegInf \<Rightarrow> True | PosInf \<Rightarrow> False | NaN \<Rightarrow> False)"

definition float_gt :: "pyfloat \<Rightarrow> rat \<Rightarrow> bool" where
  "float_gt x c = (case x of Finite v \<Rightarrow> c < v | PosInf \<Rightarrow> True | NegInf \<Rightarrow> False | NaN \<Rightarrow> False)"

definition py_round2 :: "pyfloat \<Rightarrow> pyfloat" where
  "py_round2 x = (case x of Finite v \<Rightarrow> float_of_rat (of_int (round_half_even (v * 100)) / 100)
                  | _ \<Rightarrow> x)"

section \<open>Date utilities (\<^verbatim>\<open>date_utils.py\<close>)\<close>

subsection \<open>\<^verbatim>\<open>parse_natural_date\<close>\<close>

text \<open>
  The dictionary of relative phrases is built before it is searched, in the order of its
  display, and the loop returns the date of the first phrase that occurs in the text. What
  follows the loop in the source (the \<^verbatim>\<open>last N\<close> and \<^verbatim>\<open>next N\<close> patterns and the call of
  \<^verbatim>\<open>dateutil\<close>) is the parameter \<open>other_formats\<close>.
\<close>

definition relative_patterns :: "datetime \<Rightarrow> pyerror + (pystr \<times> datetime) list" where
  "relative_patterns reference_date =
     ebind (ebind (timedelta 1 0 0 0 0) (datetime_sub reference_date)) (\<lambda>yesterday.
     ebind (ebind (timedelta 1 0 0 0 0) (datetime_add reference_date)) (\<lambda>tomorrow.
     ebind (ebind (timedelta 2 0 0 0 0) (datetime_sub reference_date)) (\<lambda>before_yesterday.
     ebind (ebind (timedelta 2 0 0 0 0) (datetime_add reference_date)) (\<lambda>after_tomorrow.
       Inr [(ustr ''today'', reference_date),
            (ustr ''yesterday'', yesterday),
            (ustr ''tomorrow'', tomorrow),
            (ustr ''day before yesterday'', before_yesterday),
            (ustr ''day after tomorrow'', after_tomorrow)]))))"

fun first_match :: "(pystr \<times> datetime) list \<Rightarrow> pystr \<Rightarrow> datetime option" where
  "first_match [] text = None"
| "first_match ((pattern, date_obj) # rest) text =
     (if py_in pattern text then Some date_obj else first_match rest text)"

definition parse_natural_date ::
    "(pystr \<Rightarrow> datetime \<Rightarrow> pyerror + datetime) \<Rightarrow> pystr \<Rightarrow> datetime \<Rightarrow> pyerror + datetime" where
  "parse_natural_date other_formats date_text reference_date =
     (let text = py_strip (py_lower date_text) in
      ebind (relative_patterns reference_date) (\<lambda>patterns.
        case first_match patterns text of
          Some date_obj \<Rightarrow> Inr date_obj
        | None \<Rightarrow> other_formats text reference_date))"

subsection \<open>\<^verbatim>\<open>get_date_range\<close>\<close>

definition get_date_range :: "pystr \<Rightarrow> datetime \<Rightarrow> pyerror + datetime \<times> datetime" where
  "get_date_range period reference_date =
     (if period = ustr ''today'' then
        ebind (checked (reference_date\<lparr>hour := 0, minute := 0, second := 0, microsecond := 0\<rparr>)) (\<lambda>start.
        ebind (checked (reference_date\<lparr>hour := 23, minute := 59, second := 59, microsecond := 999999\<rparr>)) (\<lambda>end.
          Inr (start, end)))
      else if period = ustr ''week'' then
        ebind (ebind (timedelta (weekday reference_date) 0 0 0 0) (datetime_sub reference_date)) (\<lambda>start.
        ebind (checked (start\<lparr>hour := 0, minute := 0, second := 0, microsecond := 0\<rparr>)) (\<lambda>start.
        ebind (ebind (timedelta 6 23 59 59 999999) (datetime_add start)) (\<lambda>end.
          Inr (start, end))))
      else if period = ustr ''month'' then
        ebind (checked (reference_date\<lparr>day := 1, hour := 0, minute := 0, second := 0, microsecond := 0\<rparr>)) (\<lambda>start.
        ebind (if month start < 12 then checked (start\<lparr>month := month start + 1\<rparr>)
               else checked (start\<lparr>year := year start + 1, month := 1\<rparr>)) (\<lambda>next_month.
        ebind (ebind (timedelta 0 0 0 0 1) (datetime_sub next_month)) (\<lambda>end.
          Inr (start, end))))
      else if period = ustr ''year'' then
        ebind (checked (reference_date\<lparr>month := 1, day := 1, hour := 0, minute := 0, second := 0, microsecond := 0\<rparr>)) (\<lambda>start.
        ebind (checked (reference_date\<lparr>month := 12, day := 31, hour := 23, minute := 59, second := 59, microsecond := 999999\<rparr>)) (\<lambda>end.
          Inr (start, end)))
      else if period = ustr ''last_week'' then
        ebind (ebind (timedelta (weekday reference_date + 7) 0 0 0 0) (datetime_sub reference_date)) (\<lambda>start.
        ebind (checked (start\<lparr>hour := 0, minute := 0, second := 0, microsecond := 0\<rparr>)) (\<lambda>start.
        ebind (ebind (timedelta 6 23 59 59 999999) (datetime_add start)) (\<lambda>end.
          Inr (start, end))))
      else if period = ustr ''last_month'' then
        ebind (if month reference_date = 1
               then checked (reference_date\<lparr>year := year reference_date - 1, month := 12, day := 1\<rparr>)
               else checked (reference_date\<lparr>month := month reference_date - 1, day := 1\<rparr>)) (\<lambda>start.
        ebind (checked (start\<lparr>hour := 0, minute := 0, second := 0, microsecond := 0\<rparr>)) (\<lambda>start.
        ebind (checked (reference_date\<lparr>day := 1, hour := 0, minute := 0, second := 0, microsecond := 0\<rparr>)) (\<lambda>first.
        ebind (ebind (timedelta 0 0 0 0 1) (datetime_sub first)) (\<lambda>end.
          Inr (start, end)))))
      else
        ebind (checked (reference_date\<lparr>hour := 0, minute := 0, second := 0, microsecond := 0\<rparr>)) (\<lambda>start.
        ebind (checked (reference_date\<lparr>hour := 23, minute := 59, second := 59, microsecond := 999999\<rparr>)) (\<lambda>end.
          Inr (start, end))))"

subsection \<open>\<^verbatim>\<open>calculate_business_days\<close>\<close>

text \<open>
  The loop of \<^verbatim>\<open>calculate_business_days\<close>, with the counter as an argument. It ends because
  every step moves to the next ordinal, and there is no day after the last ordinal.
\<close>

function business_days_loop :: "datetime \<Rightarrow> datetime \<Rightarrow> int \<Rightarrow> pyerror + int" where
  "business_days_loop current_date end_date business_days =
     (if datetime_le current_date end_date then
        (let business_days = (if weekday current_date < 5 then business_days + 1 else business_days)
         in case ebind (timedelta 1 0 0 0 0) (datetime_add current_date) of
              Inl e \<Rightarrow> Inl e
            | Inr next_date \<Rightarrow> business_days_loop next_date end_date business_days)
      else Inr business_days)"
  by pat_completeness auto

subsubsection \<open>Calendar arithmetic\<close>

lemma div_decomp: "0 < k \<Longrightarrow> 0 \<le> r \<Longrightarrow> r < k \<Longrightarrow> (k * q + r) div k = (q::int)"
  by simp

lemma mod_decomp: "0 < k \<Longrightarrow> 0 \<le> r \<Longrightarrow> r < k \<Longrightarrow> (k * q + r) mod k = (r::int)"
  by simp

lemma dby_decomp:
  assumes "0 \<le> b" "b \<le> 3" "0 \<le> c" "c \<le> 24" "0 \<le> e" "e \<le> 3"
  shows "days_before_year (400 * a + 100 * b + 4 * c + e + 1)
           = 146097 * a + 36524 * b + 1461 * c + 365 * e"
proof -
  let ?y = "400 * a + 100 * b + 4 * c + e"
  have "?y div 4 = (4 * (100 * a + 25 * b + c) + e) div 4" by (simp add: algebra_simps)
  also have "\<dots> = 100 * a + 25 * b + c" using assms by (intro div_decomp) auto
  finally have d4: "?y div 4 = 100 * a + 25 * b + c" .
  have "?y div 100 = (100 * (4 * a + b) + (4 * c + e)) div 100" by (simp add: algebra_simps)
  also have "\<dots> = 4 * a + b" using assms by (intro div_decomp) auto
  finally have d100: "?y div 100 = 4 * a + b" .
  have "?y div 400 = (400 * a + (100 * b + 4 * c + e)) div 400" by (simp add: algebra_simps)
  also have "\<dots> = a" using assms by (intro div_decomp) auto
  finally have d400: "?y div 400 = a" .
  show ?thesis by (simp add: days_before_year_def d4 d100 d400)
qed

lemma leap_decomp:
  assumes "0 \<le> b" "b \<le> 3" "0 \<le> c" "c \<le> 24" "0 \<le> e" "e \<le> 3"
  shows "is_leap (400 * a + 100 * b + 4 * c + e + 1) \<longleftrightarrow> e = 3 \<and> (c \<noteq> 24 \<or> b = 3)"
proof -
  let ?y = "400 * a + 100 * b + 4 * c + e + 1"
  show ?thesis
  proof (cases "e = 3")
    case False
    have "?y mod 4 = (4 * (100 * a + 25 * b + c) + (e + 1)) mod 4" by (simp add: algebra_simps)
    also have "\<dots> = e + 1" using assms False by (intro mod_decomp) auto
    finally have "?y mod 4 = e + 1" .
    then have "?y mod 4 \<noteq> 0" using assms by linarith
    then show ?thesis unfolding is_leap_def using False by blast
  next
    case e: True
    have m4: "?y mod 4 = 0"
    proof -
      have "?y = 4 * (100 * a + 25 * b + c + 1)" using e by simp
      then show ?thesis by (simp only: mod_mult_self1_is_0)
    qed
    show ?thesis
    proof (cases "c = 24")
      case False
      have "?y mod 100 = (100 * (4 * a + b) + (4 * c + 4)) mod 100" using e by (simp add: algebra_simps)
      also have "\<dots> = 4 * c + 4" using assms False by (intro mod_decomp) auto
      finally have "?y mod 100 = 4 * c + 4" .
      then have "?y mod 100 \<noteq> 0" using assms by linarith
      then show ?thesis unfolding is_leap_def using False e m4 by blast
    next
      case c: True
      have m100: "?y mod 100 = 0"
      proof -
        have "?y = 100 * (4 * a + b + 1)" using e c by simp
        then show ?thesis by (simp only: mod_mult_self1_is_0)
      qed
      show ?thesis
      proof (cases "b = 3")
        case False
        have "?y mod 400 = (400 * a + (100 * b + 100)) mod 400" using e c by (simp add: algebra_simps)
        also have "\<dots> = 100 * b + 100" using assms False by (intro mod_decomp) auto
        finally have "?y mod 400 = 100 * b + 100" .
        then have "?y mod 400 \<noteq> 0" using assms by linarith
        then show ?thesis unfolding is_leap_def using False e c m4 m100 by blast
      next
        case True
        have "?y = 400 * (a + 1)" using e c True by simp
        then have "?y mod 400 = 0" by (simp only: mod_mult_self1_is_0)
        then show ?thesis unfolding is_leap_def using e c True m4 by blast
      qed
    qed
  qed
qed

text \<open>
  The month and day that \<^verbatim>\<open>_ord2ymd\<close> computes from the day of the year: an estimate of
  the month that is corrected by at most one.
\<close>

definition month_day :: "bool \<Rightarrow> int \<Rightarrow> int \<times> int" where
  "month_day leapyear n =
     (let m = (n + 50) div 32;
          preceding = DAYS_BEFORE_MONTH ! nat m + (if m > 2 \<and> leapyear then 1 else 0);
          (m, preceding) =
             (if preceding > n
              then (m - 1, preceding - (DAYS_IN_MONTH ! nat (m - 1)
                                         + (if m - 1 = 2 \<and> leapyear then 1 else 0)))
              else (m, preceding))
      in (m, n - preceding + 1))"

lemma ord2ymd_alt:
  "ord2ymd n =
     (let n0 = n - 1;
          a = n0 div 146097; r1 = n0 mod 146097;
          b = r1 div 36524; r2 = r1 mod 36524;
          c = r2 div 1461; r3 = r2 mod 1461;
          e = r3 div 365; r = r3 mod 365
      in if e = 4 \<or> b = 4 then (a * 400 + 1 + b * 100 + c * 4 + e - 1, 12, 31)
         else case month_day (e = 3 \<and> (c \<noteq> 24 \<or> b = 3)) r of
                (m, d) \<Rightarrow> (a * 400 + 1 + b * 100 + c * 4 + e, m, d))"
  unfolding ord2ymd_def month_day_def Let_def
  by (simp only: prod.case if_distrib [of "case_prod f" for f] cong: if_cong)

lemma month_day_ok:
  assumes "0 \<le> r" and "r < (if leap then 366 else 365)"
  shows "case month_day leap r of (m, d) \<Rightarrow>
           1 \<le> m \<and> m \<le> 12 \<and> 1 \<le> d
           \<and> d \<le> (if m = 2 \<and> leap then 29 else DAYS_IN_MONTH ! nat m)
           \<and> DAYS_BEFORE_MONTH ! nat m + (if m > 2 \<and> leap then 1 else 0) + d = r + 1"
proof -
  define k where "k = (r + 50) div 32"
  have lo: "32 * k \<le> r + 50" and hi: "r + 50 < 32 * k + 32"
    unfolding k_def by presburger+
  have r: "r \<le> 365" using assms(2) by (auto split: if_splits)
  have "1 \<le> k" "k \<le> 12" using lo hi assms(1) r by linarith+
  then have "k = 1 \<or> k = 2 \<or> k = 3 \<or> k = 4 \<or> k = 5 \<or> k = 6
    \<or> k = 7 \<or> k = 8 \<or> k = 9 \<or> k = 10 \<or> k = 11 \<or> k = 12" by presburger
  then consider "k = 1" | "k = 2" | "k = 3" | "k = 4" | "k = 5" | "k = 6"
    | "k = 7" | "k = 8" | "k = 9" | "k = 10" | "k = 11" | "k = 12" by (elim disjE) auto
  then show ?thesis
  proof cases
    case 1 with lo hi assms show ?thesis
      by (auto simp: month_day_def k_def [symmetric] Let_def DAYS_BEFORE_MONTH_def DAYS_IN_MONTH_def split: if_splits)
  next
    case 2 with lo hi assms show ?thesis
      by (auto simp: month_day_def k_def [symmetric] Let_def DAYS_BEFORE_MONTH_def DAYS_IN_MONTH_def split: if_splits)
  next
    case 3 with lo hi assms show ?thesis
      by (auto simp: month_day_def k_def [symmetric] Let_def DAYS_BEFORE_MONTH_def DAYS_IN_MONTH_def split: if_splits)
  next
    case 4 with lo hi assms show ?thesis
      by (auto simp: month_day_def k_def [symmetric] Let_def DAYS_BEFORE_MONTH_def DAYS_IN_MONTH_def split: if_splits)
  next
    case 5 with lo hi assms show ?thesis
      by (auto simp: month_day_def k_def [symmetric] Let_def DAYS_BEFORE_MONTH_def DAYS_IN_MONTH_def split: if_splits)
  next
    case 6 with lo hi assms show ?thesis
      by (auto simp: month_day_def k_def [symmetric] Let_def DAYS_BEFORE_MONTH_def DAYS_IN_MONTH_def split: if_splits)
  next
    case 7 with lo hi assms show ?thesis
      by (auto simp: month_day_def k_def [symmetric] Let_def DAYS_BEFORE_MONTH_def DAYS_IN_MONTH_def split: if_splits)
  next
    case 8 with lo hi assms show ?thesis
      by (auto simp: month_day_def k_def [symmetric] Let_def DAYS_BEFORE_MONTH_def DAYS_IN_MONTH_def split: if_splits)
  next
    case 9 with lo hi assms show ?thesis
      by (auto simp: month_day_def k_def [symmetric] Let_def DAYS_BEFORE_MONTH_def DAYS_IN_MONTH_def split: if_splits)
  next
    case 10 with lo hi assms show ?thesis
      by (auto simp: month_day_def k_def [symmetric] Let_def DAYS_BEFORE_MONTH_def DAYS_IN_MONTH_def split: if_splits)
  next
    case 11 with lo hi assms show ?thesis
      by (auto simp: month_day_def k_def [symmetric] Let_def DAYS_BEFORE_MONTH_def DAYS_IN_MONTH_def split: if_splits)
  next
    case 12 with lo hi assms show ?thesis
      by (auto simp: month_day_def k_def [symmetric] Let_def DAYS_BEFORE_MONTH_def DAYS_IN_MONTH_def split: if_splits)
  qed
qed

lemma ord2ymd_ok:
  assumes "1 \<le> n"
  shows "case ord2ymd n of (y, m, d) \<Rightarrow>
           1 \<le> y \<and> 1 \<le> m \<and> m \<le> 12 \<and> 1 \<le> d \<and> d \<le> days_in_month y m \<and> ymd2ord y m d = n"
proof -
  define n0 where "n0 = n - 1"
  define a where "a = n0 div 146097"
  define r1 where "r1 = n0 mod 146097"
  define b where "b = r1 div 36524"
  define r2 where "r2 = r1 mod 36524"
  define c where "c = r2 div 1461"
  define r3 where "r3 = r2 mod 1461"
  define e where "e = r3 div 365"
  define r where "r = r3 mod 365"
  have n0: "0 \<le> n0" "n = n0 + 1" using assms by (simp_all add: n0_def)
  have e1: "n0 = 146097 * a + r1" unfolding a_def r1_def by simp
  have e2: "r1 = 36524 * b + r2" unfolding b_def r2_def by simp
  have e3: "r2 = 1461 * c + r3" unfolding c_def r3_def by simp
  have e4: "r3 = 365 * e + r" unfolding e_def r_def by simp
  have b1: "0 \<le> r1" "r1 < 146097" unfolding r1_def by simp_all
  have b2: "0 \<le> r2" "r2 < 36524" unfolding r2_def by simp_all
  have b3: "0 \<le> r3" "r3 < 1461" unfolding r3_def by simp_all
  have b4: "0 \<le> r" "r < 365" unfolding r_def by simp_all
  have a0: "0 \<le> a" unfolding a_def using n0 by (simp add: pos_imp_zdiv_nonneg_iff)
  have b0: "0 \<le> b" unfolding b_def using b1 by (simp add: pos_imp_zdiv_nonneg_iff)
  have c0: "0 \<le> c" unfolding c_def using b2 by (simp add: pos_imp_zdiv_nonneg_iff)
  have e0: "0 \<le> e" unfolding e_def using b3 by (simp add: pos_imp_zdiv_nonneg_iff)
  have bu: "b \<le> 4" using e2 b1 b2 by linarith
  have cu: "c \<le> 24" using e3 b2 b3 by linarith
  have eu: "e \<le> 4" using e4 b3 b4 by linarith
  have alt: "ord2ymd n =
      (if e = 4 \<or> b = 4 then (a * 400 + 1 + b * 100 + c * 4 + e - 1, 12, 31)
       else case month_day (e = 3 \<and> (c \<noteq> 24 \<or> b = 3)) r of
              (m, d) \<Rightarrow> (a * 400 + 1 + b * 100 + c * 4 + e, m, d))"
    unfolding ord2ymd_alt Let_def n0_def a_def r1_def b_def r2_def c_def r3_def e_def r_def ..
  have tab: "DAYS_BEFORE_MONTH ! 12 = 334" "DAYS_IN_MONTH ! 12 = 31"
    by (simp_all add: DAYS_BEFORE_MONTH_def DAYS_IN_MONTH_def)
  show ?thesis
  proof (cases "b = 4")
    case True
    with e2 b1 b2 have r2: "r2 = 0" by linarith
    with e3 c0 b3 have "c = 0" "r3 = 0" by linarith+
    with e4 e0 b4 have "e = 0" "r = 0" by linarith+
    with True \<open>c = 0\<close> have res: "ord2ymd n = (400 * a + 100 * 3 + 4 * 24 + 3 + 1, 12, 31)"
      by (simp add: alt)
    have nn: "n = 146097 * a + 146097" using n0 e1 e2 r2 True by simp
    have "days_before_year (400 * a + 100 * 3 + 4 * 24 + 3 + 1)
            = 146097 * a + 36524 * 3 + 1461 * 24 + 365 * 3"
      by (rule dby_decomp) simp_all
    moreover have "is_leap (400 * a + 100 * 3 + 4 * 24 + 3 + 1)"
      by (subst leap_decomp) simp_all
    ultimately show ?thesis unfolding res using a0 nn
      by (simp add: ymd2ord_def days_in_month_def days_before_month_def tab)
  next
    case bn: False
    with bu have b3': "b \<le> 3" by simp
    show ?thesis
    proof (cases "e = 4")
      case True
      with e4 b3 b4 have r0: "r = 0" "r3 = 1460" by linarith+
      with e3 b2 have c23: "c \<le> 23" by linarith
      have res: "ord2ymd n = (400 * a + 100 * b + 4 * c + 3 + 1, 12, 31)"
        using True by (simp add: alt)
      have nn: "n = 146097 * a + 36524 * b + 1461 * c + 1461"
        using n0 e1 e2 e3 r0 by simp
      have "days_before_year (400 * a + 100 * b + 4 * c + 3 + 1)
              = 146097 * a + 36524 * b + 1461 * c + 365 * 3"
        using b0 b3' c0 cu by (intro dby_decomp) simp_all
      moreover have "is_leap (400 * a + 100 * b + 4 * c + 3 + 1)"
        using b0 b3' c0 cu c23 by (subst leap_decomp) simp_all
      ultimately show ?thesis unfolding res using a0 b0 c0 nn
        by (simp add: ymd2ord_def days_in_month_def days_before_month_def tab)
    next
      case en: False
      with eu have e3': "e \<le> 3" by simp
      define Y where "Y = 400 * a + 100 * b + 4 * c + e + 1"
      define L where "L \<longleftrightarrow> e = 3 \<and> (c \<noteq> 24 \<or> b = 3)"
      obtain m d where md: "month_day L r = (m, d)" by (cases "month_day L r") auto
      have res: "ord2ymd n = (Y, m, d)"
        using bn en md by (simp add: alt Y_def L_def algebra_simps)
      have leap: "is_leap Y = L" unfolding Y_def L_def
        using b0 b3' c0 cu e0 e3' by (rule leap_decomp)
      have dby: "days_before_year Y = 146097 * a + 36524 * b + 1461 * c + 365 * e"
        unfolding Y_def using b0 b3' c0 cu e0 e3' by (rule dby_decomp)
      have "r < (if L then 366 else 365)" using b4 by simp
      from month_day_ok [OF b4(1) this] md
      have m: "1 \<le> m" "m \<le> 12" "1 \<le> d"
        "d \<le> (if m = 2 \<and> L then 29 else DAYS_IN_MONTH ! nat m)"
        "DAYS_BEFORE_MONTH ! nat m + (if m > 2 \<and> L then 1 else 0) + d = r + 1"
        by simp_all
      have "1 \<le> Y" unfolding Y_def using a0 b0 c0 e0 by simp
      moreover have "d \<le> days_in_month Y m" using m(4) by (simp add: days_in_month_def leap)
      moreover have "ymd2ord Y m d = n"
        using m(5) dby n0 e1 e2 e3 e4 by (simp add: ymd2ord_def days_before_month_def leap)
      ultimately show ?thesis unfolding res using m(1-3) by simp
    qed
  qed
qed

lemma div_step:
  assumes "0 < (k::int)"
  shows "y div k = (y - 1) div k + (if y mod k = 0 then 1 else 0)"
proof -
  define q where "q = (y - 1) div k"
  define r where "r = (y - 1) mod k"
  have r: "0 \<le> r" "r < k" using assms by (simp_all add: r_def)
  have "y - 1 = k * q + r" by (simp add: q_def r_def)
  then have y: "y = k * q + (r + 1)" by simp
  show ?thesis
  proof (cases "r + 1 < k")
    case True
    have "y div k = q" unfolding y using assms r True by (intro div_decomp) simp_all
    moreover have "y mod k = r + 1" unfolding y using assms r True by (intro mod_decomp) simp_all
    ultimately show ?thesis using r by (simp add: q_def)
  next
    case False
    with r have "r + 1 = k" by simp
    with y have y': "y = k * (q + 1)" by (simp add: algebra_simps)
    have "y div k = q + 1" unfolding y' using assms by simp
    moreover have "y mod k = 0" unfolding y' by simp
    ultimately show ?thesis by (simp add: q_def)
  qed
qed

lemma mod_400_100: "(y::int) mod 400 = 0 \<Longrightarrow> y mod 100 = 0"
proof -
  assume "y mod 400 = 0"
  then have "400 dvd y" by (simp add: mod_eq_0_iff_dvd)
  moreover have "(100::int) dvd 400" by simp
  ultimately have "100 dvd y" by (rule dvd_trans [rotated])
  then show ?thesis by (simp add: mod_eq_0_iff_dvd)
qed

lemma mod_100_4: "(y::int) mod 100 = 0 \<Longrightarrow> y mod 4 = 0"
proof -
  assume "y mod 100 = 0"
  then have "100 dvd y" by (simp add: mod_eq_0_iff_dvd)
  moreover have "(4::int) dvd 100" by simp
  ultimately have "4 dvd y" by (rule dvd_trans [rotated])
  then show ?thesis by (simp add: mod_eq_0_iff_dvd)
qed

lemma dby_step:
  "days_before_year (y + 1) = days_before_year y + 365 + (if is_leap y then 1 else 0)"
proof -
  define A where "A = (y - 1) div 4"
  define B where "B = (y - 1) div 100"
  define C where "C = (y - 1) div 400"
  define p4 where "p4 \<longleftrightarrow> y mod 4 = 0"
  define p100 where "p100 \<longleftrightarrow> y mod 100 = 0"
  define p400 where "p400 \<longleftrightarrow> y mod 400 = 0"
  have d4: "y div 4 = A + (if p4 then 1 else 0)"
    unfolding A_def p4_def by (rule div_step) simp
  have d100: "y div 100 = B + (if p100 then 1 else 0)"
    unfolding B_def p100_def by (rule div_step) simp
  have d400: "y div 400 = C + (if p400 then 1 else 0)"
    unfolding C_def p400_def by (rule div_step) simp
  have i1: "p400 \<Longrightarrow> p100" unfolding p400_def p100_def by (rule mod_400_100)
  have i2: "p100 \<Longrightarrow> p4" unfolding p100_def p4_def by (rule mod_100_4)
  have l: "is_leap y \<longleftrightarrow> p4 \<and> (\<not> p100 \<or> p400)"
    by (simp only: is_leap_def p4_def p100_def p400_def)
  have a: "days_before_year (y + 1) = y * 365 + y div 4 - y div 100 + y div 400"
    by (simp only: days_before_year_def Let_def add_diff_cancel_right')
  have b: "days_before_year y = (y - 1) * 365 + A - B + C"
    by (simp only: days_before_year_def Let_def A_def B_def C_def)
  show ?thesis unfolding a b d4 d100 d400 l using i1 i2
    by (cases p4; cases p100; cases p400) (simp_all add: algebra_simps)
qed

lemma dby_mono: "y \<le> y' \<Longrightarrow> days_before_year y \<le> days_before_year y'"
proof (induction y' rule: int_ge_induct)
  case base
  show ?case by simp
next
  case (step i)
  then show ?case using dby_step [of i] by (auto split: if_splits)
qed

lemma month_cases:
  assumes "1 \<le> (m::int)" "m \<le> 12"
  obtains "m = 1" | "m = 2" | "m = 3" | "m = 4" | "m = 5" | "m = 6"
    | "m = 7" | "m = 8" | "m = 9" | "m = 10" | "m = 11" | "m = 12"
proof -
  from assms have "m = 1 \<or> m = 2 \<or> m = 3 \<or> m = 4 \<or> m = 5 \<or> m = 6
    \<or> m = 7 \<or> m = 8 \<or> m = 9 \<or> m = 10 \<or> m = 11 \<or> m = 12" by presburger
  then show thesis using that by (elim disjE) auto
qed

lemma dbm_next:
  assumes "1 \<le> m" "m \<le> 11"
  shows "days_before_month y (m + 1) = days_before_month y m + days_in_month y m"
proof -
  from assms have "1 \<le> m" "m \<le> 12" by simp_all
  then show ?thesis
    using assms(2)
    by (cases rule: month_cases)
       (simp_all add: days_before_month_def days_in_month_def DAYS_BEFORE_MONTH_def DAYS_IN_MONTH_def)
qed

lemma dim_pos: "1 \<le> m \<Longrightarrow> m \<le> 12 \<Longrightarrow> 28 \<le> days_in_month y m \<and> days_in_month y m \<le> 31"
  by (erule (1) month_cases) (simp_all add: days_in_month_def DAYS_IN_MONTH_def)

lemma dbm_mono:
  assumes "1 \<le> m" "m < m'" "m' \<le> 12"
  shows "days_before_month y m + days_in_month y m \<le> days_before_month y m'"
proof -
  have "m' \<le> 12 \<longrightarrow> days_before_month y m + days_in_month y m \<le> days_before_month y m'"
    using assms(2)
  proof (induct m' rule: int_gr_induct)
    case base
    show ?case using dbm_next [of m y] assms(1) by simp
  next
    case (step i)
    show ?case
    proof
      assume i: "i + 1 \<le> 12"
      with step have "days_before_month y m + days_in_month y m \<le> days_before_month y i" by simp
      moreover have "days_before_month y (i + 1) = days_before_month y i + days_in_month y i"
        using step(1) i assms(1) by (intro dbm_next) simp_all
      moreover have "0 \<le> days_in_month y i" using dim_pos [of i y] step(1) i assms(1) by simp
      ultimately show "days_before_month y m + days_in_month y m \<le> days_before_month y (i + 1)"
        by simp
    qed
  qed
  with assms(3) show ?thesis by simp
qed

lemma dbm_last: "days_before_month y 12 + days_in_month y 12 = 365 + (if is_leap y then 1 else 0)"
  by (simp add: days_before_month_def days_in_month_def DAYS_BEFORE_MONTH_def DAYS_IN_MONTH_def)

lemma doy_le:
  assumes "1 \<le> m" "m \<le> 12" "d \<le> days_in_month y m"
  shows "days_before_month y m + d \<le> 365 + (if is_leap y then 1 else 0)"
proof (cases "m = 12")
  case True
  with assms(3) dbm_last [of y] show ?thesis by simp
next
  case False
  with assms have "days_before_month y m + days_in_month y m \<le> days_before_month y 12"
    by (intro dbm_mono) simp_all
  moreover have "0 \<le> days_in_month y 12" by (simp add: days_in_month_def DAYS_IN_MONTH_def)
  ultimately show ?thesis using assms(3) dbm_last [of y] by linarith
qed

lemma dbm_nonneg: "1 \<le> m \<Longrightarrow> m \<le> 12 \<Longrightarrow> 0 \<le> days_before_month y m"
  by (erule (1) month_cases) (simp_all add: days_before_month_def DAYS_BEFORE_MONTH_def)

lemma ymd2ord_mono:
  assumes "1 \<le> m" "m \<le> 12" "1 \<le> d" "d \<le> days_in_month y m"
    and "1 \<le> m'" "m' \<le> 12" "1 \<le> d'" "d' \<le> days_in_month y' m'"
    and "y < y' \<or> (y = y' \<and> (m < m' \<or> (m = m' \<and> d < d')))"
  shows "ymd2ord y m d < ymd2ord y' m' d'"
proof -
  consider "y < y'" | "y = y'" "m < m'" | "y = y'" "m = m'" "d < d'" using assms(9) by blast
  then show ?thesis
  proof cases
    case 1
    then have "days_before_year (y + 1) \<le> days_before_year y'" by (intro dby_mono) simp
    moreover have "days_before_month y m + d \<le> 365 + (if is_leap y then 1 else 0)"
      using assms(1,2,4) by (rule doy_le)
    moreover have "0 \<le> days_before_month y' m'" using assms(5,6) by (rule dbm_nonneg)
    ultimately show ?thesis using dby_step [of y] assms(7) by (simp add: ymd2ord_def)
  next
    case 2
    then have "days_before_month y m + days_in_month y m \<le> days_before_month y m'"
      using assms(1,6) by (intro dbm_mono) simp_all
    then show ?thesis using 2 assms(4,7) by (simp add: ymd2ord_def)
  next
    case 3
    then show ?thesis by (simp add: ymd2ord_def)
  qed
qed

lemma ord2ymd_valid:
  assumes "1 \<le> n" "n \<le> MAXORDINAL"
  shows "case ord2ymd n of (y, m, d) \<Rightarrow> valid_date y m d \<and> ymd2ord y m d = n"
proof -
  obtain y m d where r: "ord2ymd n = (y, m, d)" by (cases "ord2ymd n") auto
  with ord2ymd_ok [OF assms(1)]
  have ok: "1 \<le> y" "1 \<le> m" "m \<le> 12" "1 \<le> d" "d \<le> days_in_month y m" "ymd2ord y m d = n"
    by simp_all
  have "y \<le> 9999"
  proof (rule ccontr)
    assume "\<not> y \<le> 9999"
    then have "days_before_year 10000 \<le> days_before_year y" by (intro dby_mono) simp
    moreover have "days_before_year 10000 = 3652059" by (simp add: days_before_year_def)
    moreover have "0 \<le> days_before_month y m" using ok(2,3) by (rule dbm_nonneg)
    ultimately show False using ok(4,6) assms(2) by (simp add: ymd2ord_def MAXORDINAL_def)
  qed
  with ok r show ?thesis by (simp add: valid_date_def MINYEAR_def MAXYEAR_def)
qed

lemma ymd2ord_inj:
  assumes "valid_date y m d" "valid_date y' m' d'" "ymd2ord y m d = ymd2ord y' m' d'"
  shows "y = y' \<and> m = m' \<and> d = d'"
proof (rule ccontr)
  assume "\<not> ?thesis"
  then consider "y < y' \<or> (y = y' \<and> (m < m' \<or> (m = m' \<and> d < d')))"
    | "y' < y \<or> (y' = y \<and> (m' < m \<or> (m' = m \<and> d' < d)))" by linarith
  then show False
  proof cases
    case 1
    with assms(1,2) have "ymd2ord y m d < ymd2ord y' m' d'"
      unfolding valid_date_def by (intro ymd2ord_mono) simp_all
    with assms(3) show False by simp
  next
    case 2
    with assms(1,2) have "ymd2ord y' m' d' < ymd2ord y m d"
      unfolding valid_date_def by (intro ymd2ord_mono) simp_all
    with assms(3) show False by simp
  qed
qed

lemma ymd2ord_range:
  assumes "valid_date y m d"
  shows "1 \<le> ymd2ord y m d \<and> ymd2ord y m d \<le> MAXORDINAL"
proof -
  from assms have v: "1 \<le> y" "y \<le> 9999" "1 \<le> m" "m \<le> 12" "1 \<le> d" "d \<le> days_in_month y m"
    by (simp_all add: valid_date_def MINYEAR_def MAXYEAR_def)
  have "days_before_year 1 \<le> days_before_year y" using v(1) by (rule dby_mono)
  moreover have "days_before_year 1 = 0" by (simp add: days_before_year_def)
  moreover have "0 \<le> days_before_month y m" using v(3,4) by (rule dbm_nonneg)
  ultimately have lo: "1 \<le> ymd2ord y m d" using v(5) by (simp add: ymd2ord_def)
  have "days_before_year (y + 1) \<le> days_before_year 10000" using v(2) by (intro dby_mono) simp
  moreover have "days_before_year 10000 = 3652059" by (simp add: days_before_year_def)
  moreover have "days_before_month y m + d \<le> 365 + (if is_leap y then 1 else 0)"
    using v(3,4,6) by (rule doy_le)
  ultimately have "ymd2ord y m d \<le> MAXORDINAL"
    using dby_step [of y] by (simp add: ymd2ord_def MAXORDINAL_def)
  with lo show ?thesis by simp
qed

lemma ord2ymd_ymd2ord:
  assumes "valid_date y m d"
  shows "ord2ymd (ymd2ord y m d) = (y, m, d)"
proof -
  obtain y' m' d' where r: "ord2ymd (ymd2ord y m d) = (y', m', d')"
    by (cases "ord2ymd (ymd2ord y m d)") auto
  from ymd2ord_range [OF assms] have "1 \<le> ymd2ord y m d" "ymd2ord y m d \<le> MAXORDINAL" by simp_all
  from ord2ymd_valid [OF this] r
  have "valid_date y' m' d'" "ymd2ord y' m' d' = ymd2ord y m d" by simp_all
  with ymd2ord_inj [OF this(1) assms] r show ?thesis by simp
qed

subsubsection \<open>Adding days\<close>

lemma time_fields:
  fixes h mi s us r :: int
  assumes "0 \<le> h" "h < 24" "0 \<le> mi" "mi < 60" "0 \<le> s" "s < 60" "0 \<le> us" "us < 1000000"
    and r: "r = ((h * 60 + mi) * 60 + s) * 1000000 + us"
  shows "r div 3600000000 = h" "r div 60000000 mod 60 = mi" "r div 1000000 mod 60 = s"
    "r mod 1000000 = us" "0 \<le> r" "r < 86400000000"
proof -
  have r1: "r = 3600000000 * h + (60000000 * mi + 1000000 * s + us)" using r by simp
  have "(3600000000 * h + (60000000 * mi + 1000000 * s + us)) div 3600000000 = h"
    using assms(1-8) by (intro div_decomp) simp_all
  then show "r div 3600000000 = h" unfolding r1 .
  have r2: "r = 60000000 * (60 * h + mi) + (1000000 * s + us)" using r by simp
  have "(60000000 * (60 * h + mi) + (1000000 * s + us)) div 60000000 = 60 * h + mi"
    using assms(1-8) by (intro div_decomp) simp_all
  then have "r div 60000000 = 60 * h + mi" unfolding r2 .
  moreover have "(60 * h + mi) mod 60 = mi" using assms(3,4) by (intro mod_decomp) simp_all
  ultimately show "r div 60000000 mod 60 = mi" by simp
  have r3: "r = 1000000 * (60 * (60 * h + mi) + s) + us" using r by simp
  have "(1000000 * (60 * (60 * h + mi) + s) + us) div 1000000 = 60 * (60 * h + mi) + s"
    using assms(1-8) by (intro div_decomp) simp_all
  then have "r div 1000000 = 60 * (60 * h + mi) + s" unfolding r3 .
  moreover have "(60 * (60 * h + mi) + s) mod 60 = s" using assms(5,6) by (intro mod_decomp) simp_all
  ultimately show "r div 1000000 mod 60 = s" by simp
  have "(1000000 * (60 * (60 * h + mi) + s) + us) mod 1000000 = us"
    using assms(7,8) by (intro mod_decomp) simp_all
  then show "r mod 1000000 = us" unfolding r3 .
  show "0 \<le> r" using assms(1-8) r by simp
  show "r < 86400000000" using assms(1-8) r by simp
qed

lemma div_less_bound:
  fixes a b c :: int
  assumes "0 < b" "a < b * c"
  shows "a div b < c"
proof (rule ccontr)
  assume "\<not> a div b < c"
  then have "c \<le> a div b" by simp
  then have "b * c \<le> b * (a div b)" using assms(1) by (simp add: mult_left_mono)
  moreover have "b * (a div b) \<le> a"
    using assms(1) by (metis add.commute le_add_same_cancel2 mult_div_mod_eq pos_mod_sign)
  ultimately show False using assms(2) by simp
qed

lemma time_split:
  fixes r :: int
  assumes "0 \<le> r" "r < 86400000000"
  shows "0 \<le> r div 3600000000" "r div 3600000000 < 24"
    "0 \<le> r div 60000000 mod 60" "r div 60000000 mod 60 < 60"
    "0 \<le> r div 1000000 mod 60" "r div 1000000 mod 60 < 60"
    "0 \<le> r mod 1000000" "r mod 1000000 < 1000000"
    "((r div 3600000000 * 60 + r div 60000000 mod 60) * 60 + r div 1000000 mod 60) * 1000000
       + r mod 1000000 = r"
proof -
  define q where "q = r div 1000000"
  define q2 where "q2 = q div 60"
  have a: "r div 60000000 = q2"
    using zdiv_zmult2_eq [of 60 r 1000000] by (simp add: q_def q2_def)
  have b: "r div 3600000000 = q2 div 60"
    using zdiv_zmult2_eq [of 60 r 60000000] a by simp
  show "0 \<le> r div 3600000000" using assms(1) by (simp add: pos_imp_zdiv_nonneg_iff)
  show "r div 3600000000 < 24" using assms(2) by (intro div_less_bound) simp_all
  show "0 \<le> r div 60000000 mod 60" by simp
  show "r div 60000000 mod 60 < 60" by simp
  show "0 \<le> r div 1000000 mod 60" by simp
  show "r div 1000000 mod 60 < 60" by simp
  show "0 \<le> r mod 1000000" by simp
  show "r mod 1000000 < 1000000" by simp
  have "q2 div 60 * 60 + q2 mod 60 = q2" by simp
  moreover have "q2 * 60 + q mod 60 = q" by (simp add: q2_def)
  moreover have "q * 1000000 + r mod 1000000 = r" by (simp add: q_def)
  ultimately show "((r div 3600000000 * 60 + r div 60000000 mod 60) * 60 + r div 1000000 mod 60) * 1000000
       + r mod 1000000 = r"
    unfolding a b q_def [symmetric] by simp
qed

lemma datetime_add_result:
  assumes "datetime_add dt delta = Inr dt'"
  shows "valid_datetime dt'"
    and "toordinal dt' = (toordinal dt * 86400000000 + time_of_day dt + delta) div 86400000000"
    and "time_of_day dt' = (toordinal dt * 86400000000 + time_of_day dt + delta) mod 86400000000"
proof -
  define t where "t = toordinal dt * 86400000000 + time_of_day dt + delta"
  define days where "days = t div 86400000000"
  define r where "r = t mod 86400000000"
  have t: "(((toordinal dt * 24 + hour dt) * 60 + minute dt) * 60 + second dt) * 1000000
             + microsecond dt + delta = t"
    by (simp add: t_def time_of_day_def)
  obtain y m d where o: "ord2ymd days = (y, m, d)" by (cases "ord2ymd days") auto
  from assms have rng: "0 < days" "days \<le> MAXORDINAL"
    and dt': "dt' = \<lparr>year = y, month = m, day = d,
                   hour = r div 3600000000, minute = r div 60000000 mod 60,
                   second = r div 1000000 mod 60, microsecond = r mod 1000000\<rparr>"
    unfolding datetime_add_def t Let_def days_def [symmetric] r_def [symmetric]
    by (auto simp: o split: if_splits)
  from rng have "1 \<le> days" by simp
  from ord2ymd_valid [OF this rng(2)] o
  have v: "valid_date y m d" "ymd2ord y m d = days" by simp_all
  have r: "0 \<le> r" "r < 86400000000" by (simp_all add: r_def)
  note ts = time_split [OF r]
  show "valid_datetime dt'" unfolding valid_datetime_def dt' using v(1) ts(1-8) by simp
  show "toordinal dt' = (toordinal dt * 86400000000 + time_of_day dt + delta) div 86400000000"
    using v(2) by (simp add: toordinal_def dt' days_def t_def)
  show "time_of_day dt' = (toordinal dt * 86400000000 + time_of_day dt + delta) mod 86400000000"
    using ts(9) by (simp add: time_of_day_def dt' r_def t_def)
qed

lemma time_of_day_range:
  assumes "valid_datetime dt"
  shows "0 \<le> time_of_day dt" "time_of_day dt < 86400000000"
  using assms time_fields(5,6) [OF _ _ _ _ _ _ _ _ refl, of "hour dt" "minute dt" "second dt" "microsecond dt"]
  by (simp_all add: valid_datetime_def time_of_day_def)

lemma timedelta_day: "timedelta 1 0 0 0 0 = Inr 86400000000"
  by (simp add: timedelta_def)

lemma toordinal_range:
  "valid_datetime dt \<Longrightarrow> 1 \<le> toordinal dt \<and> toordinal dt \<le> MAXORDINAL"
  unfolding toordinal_def valid_datetime_def using ymd2ord_range by blast

lemma add_days:
  assumes "valid_datetime dt"
  shows "0 < toordinal dt + k \<and> toordinal dt + k \<le> MAXORDINAL \<Longrightarrow>
           \<exists>dt'. datetime_add dt (k * 86400000000) = Inr dt' \<and> valid_datetime dt'
                 \<and> toordinal dt' = toordinal dt + k \<and> time_of_day dt' = time_of_day dt"
    and "\<not> (0 < toordinal dt + k \<and> toordinal dt + k \<le> MAXORDINAL) \<Longrightarrow>
           datetime_add dt (k * 86400000000) = Inl OverflowError"
proof -
  note tr = time_of_day_range [OF assms]
  define t where "t = toordinal dt * 86400000000 + time_of_day dt + k * 86400000000"
  have t: "(((toordinal dt * 24 + hour dt) * 60 + minute dt) * 60 + second dt) * 1000000
             + microsecond dt + k * 86400000000 = t"
    by (simp add: t_def time_of_day_def)
  have t': "t = 86400000000 * (toordinal dt + k) + time_of_day dt"
    by (simp add: t_def algebra_simps)
  have d: "t div 86400000000 = toordinal dt + k"
    unfolding t' using tr by (intro div_decomp) simp_all
  have m: "t mod 86400000000 = time_of_day dt"
    unfolding t' using tr by (intro mod_decomp) simp_all
  {
    assume rng: "0 < toordinal dt + k \<and> toordinal dt + k \<le> MAXORDINAL"
    obtain y mo da where o: "ord2ymd (toordinal dt + k) = (y, mo, da)"
      by (cases "ord2ymd (toordinal dt + k)") auto
    have "\<exists>dt'. datetime_add dt (k * 86400000000) = Inr dt'"
      unfolding datetime_add_def t Let_def d using rng by (simp add: o)
    then obtain dt' where r: "datetime_add dt (k * 86400000000) = Inr dt'" by blast
    from datetime_add_result [OF r] d m
    have "valid_datetime dt'" "toordinal dt' = toordinal dt + k" "time_of_day dt' = time_of_day dt"
      by (simp_all add: t_def)
    with r show "\<exists>dt'. datetime_add dt (k * 86400000000) = Inr dt' \<and> valid_datetime dt'
                 \<and> toordinal dt' = toordinal dt + k \<and> time_of_day dt' = time_of_day dt"
      by blast
  }
  {
    assume "\<not> (0 < toordinal dt + k \<and> toordinal dt + k \<le> MAXORDINAL)"
    then show "datetime_add dt (k * 86400000000) = Inl OverflowError"
      unfolding datetime_add_def t Let_def d by auto
  }
qed

lemma add_day:
  assumes "valid_datetime dt"
  shows "toordinal dt < MAXORDINAL \<Longrightarrow>
           \<exists>dt'. datetime_add dt 86400000000 = Inr dt' \<and> valid_datetime dt'
                 \<and> toordinal dt' = toordinal dt + 1 \<and> time_of_day dt' = time_of_day dt"
    and "\<not> toordinal dt < MAXORDINAL \<Longrightarrow> datetime_add dt 86400000000 = Inl OverflowError"
  using add_days [OF assms, of 1] toordinal_range [OF assms] by simp_all

termination business_days_loop
proof (relation "measure (\<lambda>(c, e, b). if valid_datetime c then nat (MAXORDINAL - toordinal c)
                                        else nat (MAXORDINAL + 1))")
  show "wf (measure (\<lambda>(c, e, b). if valid_datetime c then nat (MAXORDINAL - toordinal c)
                                        else nat (MAXORDINAL + 1)))" by simp
next
  fix current_date end_date :: datetime and business_days x :: int and next_date
  assume "ebind (timedelta 1 0 0 0 0) (datetime_add current_date) = Inr next_date"
  then have r: "datetime_add current_date 86400000000 = Inr next_date"
    by (simp add: timedelta_day ebind_def)
  from datetime_add_result(1) [OF r] have v: "valid_datetime next_date" .
  from toordinal_range [OF v] have o: "1 \<le> toordinal next_date" by simp
  show "((next_date, end_date, x), current_date, end_date, business_days)
          \<in> measure (\<lambda>(c, e, b). if valid_datetime c then nat (MAXORDINAL - toordinal c)
                                   else nat (MAXORDINAL + 1))"
  proof (cases "valid_datetime current_date")
    case True
    from add_day(2) [OF True] r have "toordinal current_date < MAXORDINAL" by auto
    from add_day(1) [OF True this] r have "toordinal next_date = toordinal current_date + 1" by auto
    with True v \<open>toordinal current_date < MAXORDINAL\<close> show ?thesis by simp
  next
    case False
    with v o show ?thesis by (simp add: MAXORDINAL_def)
  qed
qed

declare business_days_loop.simps [simp del]

definition calculate_business_days :: "datetime \<Rightarrow> datetime \<Rightarrow> pyerror + int" where
  "calculate_business_days start_date end_date = business_days_loop start_date end_date 0"

section \<open>Format utilities (\<^verbatim>\<open>format_utils.py\<close>)\<close>

subsection \<open>\<^verbatim>\<open>capitalize_words\<close>\<close>

definition lowercase_words :: "pystr list" where
  "lowercase_words = map ustr
     [''a'', ''an'', ''and'', ''as'', ''at'', ''but'', ''by'', ''for'',
      ''in'', ''of'', ''on'', ''or'', ''the'', ''to'', ''up'', ''via'']"

definition capitalize_words :: "pystr \<Rightarrow> pystr" where
  "capitalize_words text =
     (if text = [] then []
      else let words = py_split (py_lower text);
               result = map (\<lambda>(i, word).
                          if i = 0 \<or> word \<notin> set lowercase_words then py_capitalize word
                          else word) (enumerate 0 words)
           in py_join (ustr '' '') result)"

subsection \<open>\<^verbatim>\<open>format_phone_number\<close>\<close>

definition format_phone_number :: "pystr \<Rightarrow> pystr \<Rightarrow> pystr" where
  "format_phone_number phone country_code =
     (if phone = [] then []
      else let digits = filter py_isdigit phone in
        if length digits = 10 then
          country_code @ ustr '' '' @ take 5 digits @ ustr '' '' @ drop 5 digits
        else if length digits = 11 \<and> take 1 digits = ustr ''0'' then
          (let digits = drop 1 digits
           in country_code @ ustr '' '' @ take 5 digits @ ustr '' '' @ drop 5 digits)
        else phone)"

text \<open>A clean 10-digit number: exactly ten ASCII digits.\<close>

definition clean_phone :: "pystr \<Rightarrow> bool" where
  "clean_phone phone \<longleftrightarrow> length phone = 10 \<and> list_all (\<lambda>c. 48 \<le> c \<and> c \<le> 57) phone"

subsection \<open>\<^verbatim>\<open>format_file_size\<close>\<close>

text \<open>
  The index of the unit is \<^verbatim>\<open>int(math.floor(math.log(size_bytes, 1024)))\<close>, a quotient of two
  logarithms of the C library; on a positive size it is the parameter \<open>log_floor\<close>, and on a
  negative size \<^verbatim>\<open>math.log\<close> raises \<^verbatim>\<open>ValueError\<close>. \<^verbatim>\<open>math.pow(1024, i)\<close> raises \<^verbatim>\<open>OverflowError\<close>
  when the power is no double, and so does the division when the size is no double. The
  text of the rounded quotient in the formatted string is the parameter \<open>float_repr\<close>, and
  the index into the list of units raises \<^verbatim>\<open>IndexError\<close> past its end.
\<close>

definition size_names :: "pystr list" where
  "size_names = map ustr [''B'', ''KB'', ''MB'', ''GB'', ''TB'']"

definition float_div :: "pyfloat \<Rightarrow> rat \<Rightarrow> pyfloat" where
  "float_div x p = (case x of Finite v \<Rightarrow> float_of_rat (v / p) | _ \<Rightarrow> x)"

definition format_file_size ::
    "(int \<Rightarrow> nat) \<Rightarrow> (pyfloat \<Rightarrow> pystr) \<Rightarrow> int \<Rightarrow> pyerror + pystr" where
  "format_file_size log_floor float_repr size_bytes =
     (if size_bytes = 0 then Inr (ustr ''0 B'')
      else if size_bytes < 0 then Inl ValueError
      else let i = log_floor size_bytes in
        if 1024 \<le> 10 * i then Inl OverflowError
        else ebind (float_of_int size_bytes) (\<lambda>x.
          let p = 1024 ^ i;
              s = py_round2 (float_div x p)
          in if i < length size_names then Inr (float_repr s @ ustr '' '' @ size_names ! i)
             else Inl IndexError))"

section \<open>Validation utilities (\<^verbatim>\<open>validation_utils.py\<close>)\<close>

subsection \<open>\<^verbatim>\<open>sanitize_input\<close>\<close>

text \<open>
  The class \<^verbatim>\<open>[\x00-\x08\x0b\x0c\x0e-\x1f\x7f]\<close> of the first substitution, and the second
  substitution \<^verbatim>\<open>re.sub(r'\s+', ' ', s)\<close>, which puts one space for every maximal run of
  white space.
\<close>

definition is_control :: "int \<Rightarrow> bool" where
  "is_control c \<longleftrightarrow> (0 \<le> c \<and> c \<le> 8) \<or> c = 11 \<or> c = 12 \<or> (14 \<le> c \<and> c \<le> 31) \<or> c = 127"

function collapse_ws :: "pystr \<Rightarrow> pystr" where
  "collapse_ws [] = []"
| "collapse_ws (c # cs) =
     (if py_isspace c then 32 # collapse_ws (dropWhile py_isspace cs) else c # collapse_ws cs)"
  by pat_completeness auto

termination
proof (relation "measure length")
  show "wf (measure length)" by simp
next
  fix c :: int and cs :: pystr
  show "(dropWhile py_isspace cs, c # cs) \<in> measure length"
    using length_dropWhile_le [of py_isspace cs] by simp
next
  fix c :: int and cs :: pystr
  show "(cs, c # cs) \<in> measure length" by simp
qed

definition sanitize_input :: "pystr \<Rightarrow> int \<Rightarrow> pystr" where
  "sanitize_input input_text max_length =
     (if input_text = [] then []
      else let sanitized = py_strip input_text;
               sanitized = filter (\<lambda>c. \<not> is_control c) sanitized;
               sanitized = py_slice_to sanitized max_length;
               sanitized = collapse_ws sanitized
           in sanitized)"

subsection \<open>\<^verbatim>\<open>validate_amount\<close>\<close>

text \<open>
  \<open>catch errors body handler\<close> is \<^verbatim>\<open>try\<close> with one \<^verbatim>\<open>except\<close> clause for the exceptions
  \<open>errors\<close> that returns \<open>handler\<close>; any other exception leaves the function.
\<close>

definition catch :: "pyerror list \<Rightarrow> pyerror + 'a \<Rightarrow> 'a \<Rightarrow> pyerror + 'a" where
  "catch errors body handler =
     (case body of Inl e \<Rightarrow> if e \<in> set errors then Inr handler else Inl e | Inr v \<Rightarrow> Inr v)"

text \<open>
  The class \<^verbatim>\<open>\d\<close> of \<^verbatim>\<open>re\<close>, and the digits that \<^verbatim>\<open>float\<close> and \<^verbatim>\<open>Decimal\<close> read, are the
  code points of category Nd with their digit values. Below 128 these are the ten ASCII
  digits; the table of the others is the parameter \<open>uni\<close>, and \<open>ascii_only\<close> is the table
  without any. No white space is a digit.
\<close>

type_synonym digit_table = "int \<Rightarrow> nat option"

definition decimal_digit :: "digit_table \<Rightarrow> int \<Rightarrow> nat option" where
  "decimal_digit uni c =
     (if 48 \<le> c \<and> c \<le> 57 then Some (nat (c - 48))
      else if c < 128 \<or> py_isspace c then None else uni c)"

definition ascii_only :: digit_table where
  "ascii_only c = None"

definition is_decimal_digit :: "digit_table \<Rightarrow> int \<Rightarrow> bool" where
  "is_decimal_digit uni c \<longleftrightarrow> decimal_digit uni c \<noteq> None"

definition digit_value :: "digit_table \<Rightarrow> int \<Rightarrow> int" where
  "digit_value uni c = (case decimal_digit uni c of Some d \<Rightarrow> int d | None \<Rightarrow> 0)"

definition digits_value :: "digit_table \<Rightarrow> pystr \<Rightarrow> int" where
  "digits_value uni ds = foldl (\<lambda>a c. 10 * a + digit_value uni c) 0 ds"



type_synonym 'a outcome = "bool \<times> 'a option \<times> pystr option"

definition amount_checks :: "pyfloat \<Rightarrow> pyerror + pyfloat outcome" where
  "amount_checks amount =
     (if float_le amount 0 then
        Inr (False, None, Some (ustr ''Amount must be greater than zero''))
      else if float_gt amount 999999999 then
        Inr (False, None, Some (ustr ''Amount exceeds maximum limit''))
      else Inr (True, Some (py_round2 amount), None))"


subsection \<open>\<^verbatim>\<open>validate_transaction_description\<close>\<close>


subsection \<open>\<^verbatim>\<open>validate_currency_amount\<close>\<close>

text \<open>
  A \<^verbatim>\<open>Decimal\<close> is a sign, a coefficient and an exponent, an infinity, or a quiet or
  signalling NaN. The constructor strips white space and underscores and reads a sign, then
  \<^verbatim>\<open>inf\<close>, \<^verbatim>\<open>infinity\<close>, \<^verbatim>\<open>nan\<close> or \<^verbatim>\<open>snan\<close> with a payload of digits in any case, or digits with
  at most one point among them and an optional exponent; it raises \<^verbatim>\<open>InvalidOperation\<close> on
  anything else, and on an exponent outside the limits of the 64-bit context.
\<close>

datatype decimal = DFinite bool int int | DInfinity bool | DNaN bool

definition split_sign :: "pystr \<Rightarrow> bool \<times> pystr" where
  "split_sign s = (case s of [] \<Rightarrow> (False, s)
                   | c # r \<Rightarrow> if c = 45 then (True, r) else if c = 43 then (False, r) else (False, s))"

definition ascii_lower :: "pystr \<Rightarrow> pystr" where
  "ascii_lower s = map (\<lambda>c. if 65 \<le> c \<and> c \<le> 90 then c + 32 else c) s"

definition decimal_in_range :: "pystr \<Rightarrow> int \<Rightarrow> bool" where
  "decimal_in_range coefficient_digits e =
     (e + int (max 1 (length coefficient_digits)) - 1 \<le> 999999999999999999
      \<and> - 1999999999999999997 \<le> e)"

definition decimal_of_str :: "digit_table \<Rightarrow> pystr \<Rightarrow> pyerror + decimal" where
  "decimal_of_str uni s =
     (let (neg, body) = split_sign (filter (\<lambda>c. c \<noteq> 95) (py_strip s));
          low = ascii_lower body
      in if low = ustr ''inf'' \<or> low = ustr ''infinity'' then Inr (DInfinity neg)
         else if take 3 low = ustr ''nan'' \<and> list_all (is_decimal_digit uni) (drop 3 low) then
           Inr (DNaN False)
         else if take 4 low = ustr ''snan'' \<and> list_all (is_decimal_digit uni) (drop 4 low) then
           Inr (DNaN True)
         else
           let ip = takeWhile (is_decimal_digit uni) body;
               r1 = dropWhile (is_decimal_digit uni) body;
               point = (r1 \<noteq> [] \<and> hd r1 = 46);
               fp = (if point then takeWhile (is_decimal_digit uni) (tl r1) else []);
               r2 = (if point then dropWhile (is_decimal_digit uni) (tl r1) else r1);
               coeff = digits_value uni (ip @ fp);
               significant = dropWhile (\<lambda>c. digit_value uni c = 0) (ip @ fp)
           in if ip = [] \<and> fp = [] then Inl InvalidOperation
              else if r2 = [] then
                (if decimal_in_range significant (- int (length fp))
                 then Inr (DFinite neg coeff (- int (length fp))) else Inl InvalidOperation)
              else if hd r2 = 101 \<or> hd r2 = 69 then
                (let (eneg, ed) = split_sign (tl r2);
                     e = (if eneg then - digits_value uni ed else digits_value uni ed)
                           - int (length fp)
                 in if ed \<noteq> [] \<and> list_all (is_decimal_digit uni) ed
                       \<and> decimal_in_range significant e
                    then Inr (DFinite neg coeff e)
                    else Inl InvalidOperation)
              else Inl InvalidOperation)"

text \<open>
  \<^verbatim>\<open>amount <= 0\<close> raises \<^verbatim>\<open>InvalidOperation\<close> on a NaN. The exponent of
  \<^verbatim>\<open>amount.as_tuple()\<close> is a string for an infinity and a NaN, and its comparison with \<^verbatim>\<open>-2\<close>
  raises \<^verbatim>\<open>TypeError\<close>. \<^verbatim>\<open>float(amount)\<close> raises \<^verbatim>\<open>ValueError\<close> on a signalling NaN.
\<close>

definition decimal_le_zero :: "decimal \<Rightarrow> pyerror + bool" where
  "decimal_le_zero d = (case d of DFinite neg c e \<Rightarrow> Inr (neg \<or> c = 0)
                        | DInfinity neg \<Rightarrow> Inr neg
                        | DNaN s \<Rightarrow> Inl InvalidOperation)"

definition decimal_exponent_less :: "decimal \<Rightarrow> int \<Rightarrow> pyerror + bool" where
  "decimal_exponent_less d n = (case d of DFinite neg c e \<Rightarrow> Inr (e < n) | _ \<Rightarrow> Inl TypeError)"

definition decimal_value :: "bool \<Rightarrow> int \<Rightarrow> int \<Rightarrow> rat" where
  "decimal_value neg c e = (if neg then - 1 else 1) * of_int c * 10 powi e"

definition float_of_decimal :: "decimal \<Rightarrow> pyerror + pyfloat" where
  "float_of_decimal d = (case d of DFinite neg c e \<Rightarrow> Inr (float_of_rat (decimal_value neg c e))
                         | DInfinity neg \<Rightarrow> Inr (if neg then NegInf else PosInf)
                         | DNaN s \<Rightarrow> if s then Inl ValueError else Inr NaN)"

text \<open>
  The text that is parsed: the stripped input without the currency symbol at its head, and
  without commas.
\<close>

definition currency_cleaned :: "pystr \<Rightarrow> pystr \<Rightarrow> pystr" where
  "currency_cleaned amount_str currency_symbol =
     (let cleaned = py_strip amount_str;
          cleaned = (if take (length currency_symbol) cleaned = currency_symbol
                     then py_strip (drop (length currency_symbol) cleaned) else cleaned)
      in filter (\<lambda>c. c \<noteq> 44) cleaned)"

definition validate_currency_amount ::
    "digit_table \<Rightarrow> pystr \<Rightarrow> pystr \<Rightarrow> pyerror + pyfloat outcome" where
  "validate_currency_amount uni amount_str currency_symbol =
     (if amount_str = [] \<or> py_strip amount_str = [] then
        Inr (False, None, Some (ustr ''Amount is required''))
      else
        catch [InvalidOperation, ValueError]
          (ebind (decimal_of_str uni (currency_cleaned amount_str currency_symbol)) (\<lambda>amount.
           ebind (decimal_le_zero amount) (\<lambda>le.
             if le then Inr (False, None, Some (ustr ''Amount must be greater than zero''))
             else ebind (decimal_exponent_less amount (- 2)) (\<lambda>less.
               if less then
                 Inr (False, None, Some (ustr ''Amount cannot have more than 2 decimal places''))
               else ebind (float_of_decimal amount) (\<lambda>value. Inr (True, Some value, None))))))
          (False, None, Some (ustr ''Invalid amount format'')))"

section \<open>Properties of the date utilities\<close>

subsection \<open>\<^verbatim>\<open>parse_natural_date\<close>\<close>

lemma timedelta_days2: "timedelta 2 0 0 0 0 = Inr (2 * 86400000000)"
  by (simp add: timedelta_def)

lemma text_after: "py_strip (py_lower (ustr ''day after tomorrow'')) = ustr ''day after tomorrow''"
  by code_simp

lemma text_before: "py_strip (py_lower (ustr ''day before yesterday'')) = ustr ''day before yesterday''"
  by code_simp

lemma match_after:
  "first_match [(ustr ''today'', a), (ustr ''yesterday'', b), (ustr ''tomorrow'', c),
                (ustr ''day before yesterday'', d), (ustr ''day after tomorrow'', e)]
               (ustr ''day after tomorrow'') = Some c"
proof -
  have "\<not> py_in (ustr ''today'') (ustr ''day after tomorrow'')" by code_simp
  moreover have "\<not> py_in (ustr ''yesterday'') (ustr ''day after tomorrow'')" by code_simp
  moreover have "py_in (ustr ''tomorrow'') (ustr ''day after tomorrow'')" by code_simp
  ultimately show ?thesis by simp
qed

lemma match_before:
  "first_match [(ustr ''today'', a), (ustr ''yesterday'', b), (ustr ''tomorrow'', c),
                (ustr ''day before yesterday'', d), (ustr ''day after tomorrow'', e)]
               (ustr ''day before yesterday'') = Some b"
proof -
  have "\<not> py_in (ustr ''today'') (ustr ''day before yesterday'')" by code_simp
  moreover have "py_in (ustr ''yesterday'') (ustr ''day before yesterday'')" by code_simp
  ultimately show ?thesis by simp
qed

text \<open>
  Claim C2. The phrases are matched as substrings in the order of the dictionary, so the
  two compound phrases never win: \<^verbatim>\<open>day after tomorrow\<close> contains \<^verbatim>\<open>tomorrow\<close> and
  \<^verbatim>\<open>day before yesterday\<close> contains \<^verbatim>\<open>yesterday\<close>, which come first. For every reference date
  with two days on either side, the result is one day after, respectively before, the
  reference date, and not two.
\<close>

theorem parse_natural_date_compound_phrases:
  assumes "valid_datetime reference_date"
    and "2 < toordinal reference_date" and "toordinal reference_date + 2 \<le> MAXORDINAL"
  shows "parse_natural_date other_formats (ustr ''day after tomorrow'') reference_date
           = datetime_add reference_date 86400000000
         \<and> parse_natural_date other_formats (ustr ''day before yesterday'') reference_date
           = datetime_sub reference_date 86400000000
         \<and> datetime_add reference_date 86400000000 \<noteq> datetime_add reference_date (2 * 86400000000)
         \<and> datetime_sub reference_date 86400000000 \<noteq> datetime_sub reference_date (2 * 86400000000)"
proof -
  let ?o = "toordinal reference_date"
  have r1: "0 < ?o + 1 \<and> ?o + 1 \<le> MAXORDINAL" "0 < ?o + 2 \<and> ?o + 2 \<le> MAXORDINAL"
    "0 < ?o + - 1 \<and> ?o + - 1 \<le> MAXORDINAL" "0 < ?o + - 2 \<and> ?o + - 2 \<le> MAXORDINAL"
    using assms(2,3) by simp_all
  from add_days(1) [OF assms(1) r1(1)] obtain t1 where
    t1: "datetime_add reference_date 86400000000 = Inr t1" "toordinal t1 = ?o + 1" by auto
  from add_days(1) [OF assms(1) r1(2)] obtain t2 where
    t2: "datetime_add reference_date (2 * 86400000000) = Inr t2" "toordinal t2 = ?o + 2" by auto
  from add_days(1) [OF assms(1) r1(3)] obtain y1 where
    y1: "datetime_sub reference_date 86400000000 = Inr y1" "toordinal y1 = ?o + - 1"
    by (auto simp: datetime_sub_def)
  from add_days(1) [OF assms(1) r1(4)] obtain y2 where
    y2: "datetime_sub reference_date (2 * 86400000000) = Inr y2" "toordinal y2 = ?o + - 2"
    by (auto simp: datetime_sub_def)
  have pats: "relative_patterns reference_date =
                Inr [(ustr ''today'', reference_date), (ustr ''yesterday'', y1),
                     (ustr ''tomorrow'', t1), (ustr ''day before yesterday'', y2),
                     (ustr ''day after tomorrow'', t2)]"
    using t1(1) t2(1) y1(1) y2(1)
    by (simp add: relative_patterns_def ebind_def timedelta_day timedelta_days2)
  have a: "parse_natural_date other_formats (ustr ''day after tomorrow'') reference_date = Inr t1"
    unfolding parse_natural_date_def Let_def text_after pats by (simp add: ebind_def match_after del: first_match.simps)
  have b: "parse_natural_date other_formats (ustr ''day before yesterday'') reference_date = Inr y1"
    unfolding parse_natural_date_def Let_def text_before pats by (simp add: ebind_def match_before del: first_match.simps)
  have "t1 \<noteq> t2" using t1(2) t2(2) by auto
  moreover have "y1 \<noteq> y2" using y1(2) y2(2) by auto
  ultimately show ?thesis using a b t1(1) t2(1) y1(1) y2(1) by simp
qed

theorem parse_natural_date_compound_phrases_witness:
  "valid_datetime (dt_of 2024 2 15 10 30 0 0)
   \<and> parse_natural_date (\<lambda>text ref. Inr ref) (ustr ''day after tomorrow'') (dt_of 2024 2 15 10 30 0 0)
       = Inr (dt_of 2024 2 16 10 30 0 0)
   \<and> parse_natural_date (\<lambda>text ref. Inr ref) (ustr ''day before yesterday'') (dt_of 2024 2 15 10 30 0 0)
       = Inr (dt_of 2024 2 14 10 30 0 0)
   \<and> datetime_add (dt_of 2024 2 15 10 30 0 0) (2 * 86400000000) = Inr (dt_of 2024 2 17 10 30 0 0)
   \<and> datetime_sub (dt_of 2024 2 15 10 30 0 0) (2 * 86400000000) = Inr (dt_of 2024 2 13 10 30 0 0)"
proof -
  have v: "valid_datetime (dt_of 2024 2 15 10 30 0 0)" by code_simp
  have lo: "2 < toordinal (dt_of 2024 2 15 10 30 0 0)" by code_simp
  have hi: "toordinal (dt_of 2024 2 15 10 30 0 0) + 2 \<le> MAXORDINAL" by code_simp
  have e1: "datetime_add (dt_of 2024 2 15 10 30 0 0) 86400000000 = Inr (dt_of 2024 2 16 10 30 0 0)"
    by code_simp
  have e2: "datetime_sub (dt_of 2024 2 15 10 30 0 0) 86400000000 = Inr (dt_of 2024 2 14 10 30 0 0)"
    by code_simp
  have e3: "datetime_add (dt_of 2024 2 15 10 30 0 0) (2 * 86400000000) = Inr (dt_of 2024 2 17 10 30 0 0)"
    by code_simp
  have e4: "datetime_sub (dt_of 2024 2 15 10 30 0 0) (2 * 86400000000) = Inr (dt_of 2024 2 13 10 30 0 0)"
    by code_simp
  from parse_natural_date_compound_phrases [OF v lo hi, of "\<lambda>text ref. Inr ref"] v e1 e2 e3 e4
  show ?thesis by simp
qed

subsection \<open>\<^verbatim>\<open>calculate_business_days\<close>\<close>

text \<open>
  The days of the inclusive range of ordinals from \<open>lo\<close> to \<open>hi\<close> that fall on Monday to
  Friday; the weekday of the day with ordinal \<open>n\<close> is \<open>(n + 6) mod 7\<close>.
\<close>

definition weekdays_between :: "int \<Rightarrow> int \<Rightarrow> int" where
  "weekdays_between lo hi = int (length (filter (\<lambda>n. (n + 6) mod 7 < 5) [lo..hi]))"

lemma time_lex:
  assumes "valid_datetime a" "valid_datetime b"
  shows "lex_le [hour a, minute a, second a, microsecond a]
                [hour b, minute b, second b, microsecond b]
         \<longleftrightarrow> time_of_day a \<le> time_of_day b"
  using assms unfolding valid_datetime_def time_of_day_def by auto

lemma datetime_le_instant:
  assumes "valid_datetime a" "valid_datetime b"
  shows "datetime_le a b \<longleftrightarrow> instant a \<le> instant b"
proof -
  let ?lt = "year a < year b \<or> (year a = year b \<and> (month a < month b
               \<or> (month a = month b \<and> day a < day b)))"
  let ?gt = "year b < year a \<or> (year b = year a \<and> (month b < month a
               \<or> (month b = month a \<and> day b < day a)))"
  let ?eq = "year a = year b \<and> month a = month b \<and> day a = day b"
  have va: "1 \<le> month a" "month a \<le> 12" "1 \<le> day a" "day a \<le> days_in_month (year a) (month a)"
    and vb: "1 \<le> month b" "month b \<le> 12" "1 \<le> day b" "day b \<le> days_in_month (year b) (month b)"
    using assms by (simp_all add: valid_datetime_def valid_date_def)
  note ta = time_of_day_range [OF assms(1)] and tb = time_of_day_range [OF assms(2)]
  have le: "datetime_le a b \<longleftrightarrow> ?lt \<or> (?eq \<and> time_of_day a \<le> time_of_day b)"
    unfolding time_lex [OF assms, symmetric] datetime_le_def by auto
  consider ?lt | ?gt | ?eq by linarith
  then show ?thesis
  proof cases
    case 1
    then have "toordinal a < toordinal b"
      unfolding toordinal_def using va vb by (intro ymd2ord_mono) simp_all
    then have "(toordinal a + 1) * 86400000000 \<le> toordinal b * 86400000000" by simp
    then have "instant a \<le> instant b" unfolding instant_def using ta tb by (simp add: algebra_simps)
    with 1 le show ?thesis by simp
  next
    case 2
    then have "toordinal b < toordinal a"
      unfolding toordinal_def using va vb by (intro ymd2ord_mono) simp_all
    then have "(toordinal b + 1) * 86400000000 \<le> toordinal a * 86400000000" by simp
    then have "\<not> instant a \<le> instant b" unfolding instant_def using ta tb by (simp add: algebra_simps)
    moreover from 2 have "\<not> ?lt" "\<not> ?eq" by auto
    ultimately show ?thesis using le by blast
  next
    case 3
    then have "toordinal a = toordinal b" by (simp add: toordinal_def)
    with 3 le show ?thesis by (auto simp: instant_def)
  qed
qed

lemma weekdays_between_rec:
  "lo \<le> hi \<Longrightarrow> weekdays_between lo hi
     = (if (lo + 6) mod 7 < 5 then 1 else 0) + weekdays_between (lo + 1) hi"
  by (simp add: weekdays_between_def upto_rec1 [of lo hi])

lemma weekdays_between_empty: "hi < lo \<Longrightarrow> weekdays_between lo hi = 0"
  by (simp add: weekdays_between_def)

lemma business_days_loop_eq:
  assumes "valid_datetime c" "valid_datetime e"
  shows "business_days_loop c e acc =
           (if instant c \<le> instant e then
              (if toordinal c + (instant e - instant c) div 86400000000 \<ge> MAXORDINAL
               then Inl OverflowError
               else Inr (acc + weekdays_between (toordinal c)
                                 (toordinal c + (instant e - instant c) div 86400000000)))
            else Inr acc)"
  using assms
proof (induction c e acc rule: business_days_loop.induct)
  case (1 c e acc)
  note vc = 1(2) and ve = 1(3)
  define k where "k = (instant e - instant c) div 86400000000"
  define acc' where "acc' = (if weekday c < 5 then acc + 1 else acc)"
  show ?case
  proof (cases "instant c \<le> instant e")
    case False
    then show ?thesis
      by (subst business_days_loop.simps) (simp add: datetime_le_instant [OF vc ve])
  next
    case le: True
    then have k0: "0 \<le> k" unfolding k_def by (simp add: pos_imp_zdiv_nonneg_iff)
    have dle: "datetime_le c e" using le by (simp add: datetime_le_instant [OF vc ve])
    show ?thesis
    proof (cases "toordinal c < MAXORDINAL")
      case False
      from add_day(2) [OF vc False]
      have "business_days_loop c e acc = Inl OverflowError"
        by (subst business_days_loop.simps) (simp add: dle timedelta_day ebind_def Let_def)
      moreover have "toordinal c + k \<ge> MAXORDINAL" using False k0 by simp
      ultimately show ?thesis using le by (simp add: k_def)
    next
      case lt: True
      from add_day(1) [OF vc lt] obtain n where n: "datetime_add c 86400000000 = Inr n"
        "valid_datetime n" "toordinal n = toordinal c + 1" "time_of_day n = time_of_day c"
        by blast
      have step: "business_days_loop c e acc = business_days_loop n e acc'"
        by (subst business_days_loop.simps)
           (simp add: dle timedelta_day ebind_def Let_def n(1) acc'_def)
      have en: "ebind (timedelta 1 0 0 0 0) (datetime_add c) = Inr n"
        by (simp add: timedelta_day ebind_def n(1))
      note ih = 1(1) [OF dle acc'_def en n(2) ve]
      have inst: "instant n = instant c + 86400000000" by (simp add: instant_def n(3,4))
      have kk: "(instant e - instant n) div 86400000000 = k - 1"
      proof -
        have "instant e - instant c = 86400000000 * 1 + (instant e - instant n)"
          by (simp add: inst)
        then have "(instant e - instant c) div 86400000000
                     = 1 + (instant e - instant n) div 86400000000"
          using div_mult_self2 [of 86400000000 "instant e - instant n" 1] by simp
        then show ?thesis by (simp add: k_def)
      qed
      have wd: "weekday c < 5 \<longleftrightarrow> (toordinal c + 6) mod 7 < 5" by (simp add: weekday_def)
      show ?thesis
      proof (cases "instant n \<le> instant e")
        case True
        then have "0 \<le> (instant e - instant n) div 86400000000"
          by (simp add: pos_imp_zdiv_nonneg_iff)
        with kk have k1: "1 \<le> k" by simp
        have "weekdays_between (toordinal c) (toordinal c + k)
                = (if (toordinal c + 6) mod 7 < 5 then 1 else 0)
                  + weekdays_between (toordinal c + 1) (toordinal c + k)"
          using k0 by (intro weekdays_between_rec) simp
        then show ?thesis
          unfolding step ih using True le kk wd
          by (simp add: n(3) k_def [symmetric] acc'_def)
      next
        case False
        then have "instant e - instant c < 86400000000 * 1" using inst by simp
        then have "k < 1" unfolding k_def by (intro div_less_bound) simp_all
        with k0 have kz: "k = 0" by simp
        have "weekdays_between (toordinal c) (toordinal c)
                = (if (toordinal c + 6) mod 7 < 5 then 1 else 0)"
          using weekdays_between_rec [of "toordinal c" "toordinal c"]
          by (simp add: weekdays_between_empty)
        then show ?thesis
          unfolding step ih using False le wd lt
          by (simp add: k_def [symmetric] kz acc'_def)
      qed
    qed
  qed
qed

text \<open>
  What the loop computes on naive datetimes: it visits \<open>start_date\<close>, \<open>start_date\<close> plus one
  day, and so on while the instant is not after \<open>end_date\<close>, so the day of \<open>end_date\<close> is
  visited only when the time of day of \<open>start_date\<close> is not after that of \<open>end_date\<close>.
\<close>

lemma calculate_business_days_counts:
  assumes "valid_datetime start_date" "valid_datetime end_date"
    and "datetime_le start_date end_date"
  shows "calculate_business_days start_date end_date =
           (let last = (if time_of_day start_date \<le> time_of_day end_date
                        then toordinal end_date else toordinal end_date - 1)
            in if last = MAXORDINAL then Inl OverflowError
               else Inr (weekdays_between (toordinal start_date) last))"
proof -
  note ts = time_of_day_range [OF assms(1)] and te = time_of_day_range [OF assms(2)]
  note oe = toordinal_range [OF assms(2)]
  have le: "instant start_date \<le> instant end_date"
    using assms(3) by (simp add: datetime_le_instant [OF assms(1,2)])
  define k where "k = (instant end_date - instant start_date) div 86400000000"
  define last where "last = (if time_of_day start_date \<le> time_of_day end_date
                        then toordinal end_date else toordinal end_date - 1)"
  have k: "toordinal start_date + k = last"
  proof (cases "time_of_day start_date \<le> time_of_day end_date")
    case True
    have "instant end_date - instant start_date
            = 86400000000 * (toordinal end_date - toordinal start_date)
              + (time_of_day end_date - time_of_day start_date)"
      by (simp add: instant_def algebra_simps)
    moreover have "(86400000000 * (toordinal end_date - toordinal start_date)
              + (time_of_day end_date - time_of_day start_date)) div 86400000000
            = toordinal end_date - toordinal start_date"
      using True ts te by (intro div_decomp) simp_all
    ultimately show ?thesis using True by (simp add: k_def last_def)
  next
    case False
    have "instant end_date - instant start_date
            = 86400000000 * (toordinal end_date - toordinal start_date - 1)
              + (86400000000 + time_of_day end_date - time_of_day start_date)"
      by (simp add: instant_def algebra_simps)
    moreover have "(86400000000 * (toordinal end_date - toordinal start_date - 1)
              + (86400000000 + time_of_day end_date - time_of_day start_date)) div 86400000000
            = toordinal end_date - toordinal start_date - 1"
      using False ts te by (intro div_decomp) simp_all
    ultimately show ?thesis using False by (simp add: k_def last_def)
  qed
  have "last \<le> MAXORDINAL" using oe by (simp add: last_def)
  then have "last \<ge> MAXORDINAL \<longleftrightarrow> last = MAXORDINAL" by auto
  then show ?thesis
    unfolding calculate_business_days_def business_days_loop_eq [OF assms(1,2)]
    using le k by (simp add: k_def [symmetric] last_def [symmetric] Let_def)
qed

text \<open>
  Claim C4. The inclusive range of calendar days from Monday 1 January 2024 to Tuesday
  2 January 2024 holds two days from Monday to Friday. Called from 10:00 on the Monday to
  09:00 on the Tuesday, the function returns 1: the comparison of the loop is on the
  instants, the Tuesday is reached at 10:00, after the end, and is not counted.
\<close>

theorem calculate_business_days_misses_end_day:
  "valid_datetime (dt_of 2024 1 1 10 0 0 0) \<and> valid_datetime (dt_of 2024 1 2 9 0 0 0)
   \<and> datetime_le (dt_of 2024 1 1 10 0 0 0) (dt_of 2024 1 2 9 0 0 0)
   \<and> weekday (dt_of 2024 1 1 10 0 0 0) = 0 \<and> weekday (dt_of 2024 1 2 9 0 0 0) = 1
   \<and> weekdays_between (toordinal (dt_of 2024 1 1 10 0 0 0))
                        (toordinal (dt_of 2024 1 2 9 0 0 0)) = 2
   \<and> calculate_business_days (dt_of 2024 1 1 10 0 0 0) (dt_of 2024 1 2 9 0 0 0) = Inr 1"
  by code_simp

subsection \<open>\<^verbatim>\<open>get_date_range\<close>\<close>

lemma last_day_ordinal:
  assumes "1 \<le> m" "m \<le> 12"
  shows "ymd2ord (if m < 12 then y else y + 1) (if m < 12 then m + 1 else 1) 1 - 1
           = ymd2ord y m (days_in_month y m)"
proof (cases "m < 12")
  case True
  then have "days_before_month y (m + 1) = days_before_month y m + days_in_month y m"
    using assms(1) by (intro dbm_next) simp_all
  with True show ?thesis by (simp add: ymd2ord_def)
next
  case False
  with assms have m: "m = 12" by simp
  have "days_before_month (y + 1) 1 = 0"
    by (simp add: days_before_month_def DAYS_BEFORE_MONTH_def)
  with m dby_step [of y] dbm_last [of y] show ?thesis by (simp add: ymd2ord_def)
qed

lemma month_cmp:
  "ustr ''month'' \<noteq> ustr ''today''" "ustr ''month'' \<noteq> ustr ''week''"
  by (simp_all add: ustr_def)

text \<open>
  Claim C5, as amended. For every reference date before December 9999,
  \<open>get_date_range\<close> of \<^verbatim>\<open>month\<close> starts on the first day of the month of the reference date at
  00:00:00.000000 and ends on its last day at 23:59:59.999999; the last day is that of
  \<open>days_in_month\<close>, 29 for the February of a leap year, and a reference date in December
  rolls over to the January of the next year.
\<close>

theorem get_date_range_month:
  assumes "valid_datetime ref" and "\<not> (year ref = MAXYEAR \<and> month ref = 12)"
  shows "get_date_range (ustr ''month'') ref =
           Inr (ref\<lparr>day := 1, hour := 0, minute := 0, second := 0, microsecond := 0\<rparr>,
                ref\<lparr>day := days_in_month (year ref) (month ref),
                    hour := 23, minute := 59, second := 59, microsecond := 999999\<rparr>)"
proof -
  define y where "y = year ref"
  define m where "m = month ref"
  from assms(1) have v: "1 \<le> y" "y \<le> 9999" "1 \<le> m" "m \<le> 12"
    by (simp_all add: valid_datetime_def valid_date_def MINYEAR_def MAXYEAR_def y_def m_def)
  from assms(2) have ny: "m = 12 \<Longrightarrow> y < 9999" using v by (auto simp: MAXYEAR_def y_def m_def)
  note dim = dim_pos [OF v(3,4), of y]
  define start where "start = ref\<lparr>day := 1, hour := 0, minute := 0, second := 0, microsecond := 0\<rparr>"
  define y' where "y' = (if m < 12 then y else y + 1)"
  define m' where "m' = (if m < 12 then m + 1 else 1)"
  define nxt where "nxt = (if m < 12 then start\<lparr>month := m + 1\<rparr>
                           else start\<lparr>year := y + 1, month := 1\<rparr>)"
  have fn: "year nxt = y'" "month nxt = m'" "day nxt = 1"
    by (simp_all add: nxt_def y'_def m'_def start_def y_def)
  have fs: "year start = y" "month start = m" by (simp_all add: start_def y_def m_def)
  have vs: "valid_datetime start"
    using assms(1) dim by (simp add: start_def valid_datetime_def valid_date_def y_def m_def)
  have vm': "1 \<le> m'" "m' \<le> 12" using v by (simp_all add: m'_def)
  have tn: "hour nxt = 0" "minute nxt = 0" "second nxt = 0" "microsecond nxt = 0"
    by (simp_all add: nxt_def start_def)
  have vn: "valid_datetime nxt"
    unfolding valid_datetime_def valid_date_def fn tn
    using v ny vm' dim_pos [OF vm', of y']
    by (auto simp: y'_def MINYEAR_def MAXYEAR_def)
  have s1: "checked start = Inr start" using vs by (simp add: checked_def)
  have s2: "(if month start < 12 then checked (start\<lparr>month := month start + 1\<rparr>)
             else checked (start\<lparr>year := year start + 1, month := 1\<rparr>)) = Inr nxt"
  proof -
    have ms: "month start = m" "year start = y" by (simp_all add: start_def m_def y_def)
    show ?thesis
    proof (cases "m < 12")
      case True
      then have "nxt = start\<lparr>month := m + 1\<rparr>" by (simp add: nxt_def)
      with vn have "checked (start\<lparr>month := m + 1\<rparr>) = Inr nxt" by (simp add: checked_def)
      with True show ?thesis by (simp only: ms if_True)
    next
      case False
      then have "nxt = start\<lparr>year := y + 1, month := 1\<rparr>" by (simp add: nxt_def)
      with vn have "checked (start\<lparr>year := y + 1, month := 1\<rparr>) = Inr nxt"
        by (simp add: checked_def)
      with False show ?thesis by (simp only: ms if_False)
    qed
  qed
  have vl: "valid_date y m (days_in_month y m)"
    using v dim by (simp add: valid_date_def MINYEAR_def MAXYEAR_def)
  have on: "toordinal nxt - 1 = ymd2ord y m (days_in_month y m)"
    using last_day_ordinal [OF v(3,4), of y]
    by (simp add: toordinal_def fn y'_def m'_def)
  define t where "t = (((toordinal nxt * 24 + hour nxt) * 60 + minute nxt) * 60 + second nxt) * 1000000
                + microsecond nxt + - 1"
  have t': "t = 86400000000 * (toordinal nxt - 1) + 86399999999" by (simp add: t_def tn)
  have d: "t div 86400000000 = toordinal nxt - 1" unfolding t' by (intro div_decomp) simp_all
  have r: "t mod 86400000000 = 86399999999" unfolding t' by (intro mod_decomp) simp_all
  from ymd2ord_range [OF vl] on
  have rng: "0 < toordinal nxt - 1" "toordinal nxt - 1 \<le> MAXORDINAL" by simp_all
  have o: "ord2ymd (toordinal nxt - 1) = (y, m, days_in_month y m)"
    unfolding on by (rule ord2ymd_ymd2ord [OF vl])
  have s3: "datetime_sub nxt 1 =
              Inr (ref\<lparr>day := days_in_month y m, hour := 23, minute := 59, second := 59,
                       microsecond := 999999\<rparr>)"
    unfolding datetime_sub_def datetime_add_def t_def [symmetric] Let_def d r
    using rng by (simp add: o y_def m_def)
  have s4: "timedelta 0 0 0 0 1 = Inr 1" by (simp add: timedelta_def)
  show ?thesis
    unfolding get_date_range_def
    by (simp add: month_cmp start_def [symmetric] s1 s2 s3 s4 ebind_def y_def [symmetric] m_def [symmetric])
qed

theorem get_date_range_month_witness:
  "valid_datetime (dt_of 2024 2 15 12 30 45 123456)
   \<and> \<not> (year (dt_of 2024 2 15 12 30 45 123456) = MAXYEAR \<and> month (dt_of 2024 2 15 12 30 45 123456) = 12)
   \<and> get_date_range (ustr ''month'') (dt_of 2024 2 15 12 30 45 123456)
       = Inr (dt_of 2024 2 1 0 0 0 0, dt_of 2024 2 29 23 59 59 999999)
   \<and> get_date_range (ustr ''month'') (dt_of 2023 12 31 8 0 0 0)
       = Inr (dt_of 2023 12 1 0 0 0 0, dt_of 2023 12 31 23 59 59 999999)"
proof -
  have v: "valid_datetime (dt_of 2024 2 15 12 30 45 123456)" by code_simp
  have n: "\<not> (year (dt_of 2024 2 15 12 30 45 123456) = MAXYEAR
               \<and> month (dt_of 2024 2 15 12 30 45 123456) = 12)" by code_simp
  have e: "days_in_month 2024 2 = 29" by code_simp
  have v2: "valid_datetime (dt_of 2023 12 31 8 0 0 0)" by code_simp
  have n2: "\<not> (year (dt_of 2023 12 31 8 0 0 0) = MAXYEAR
               \<and> month (dt_of 2023 12 31 8 0 0 0) = 12)" by code_simp
  have e2: "days_in_month 2023 12 = 31" by code_simp
  from get_date_range_month [OF v n] get_date_range_month [OF v2 n2] v n e e2
  show ?thesis by (simp add: dt_of_def)
qed

text \<open>
  Claim C5 as stated fails for a reference date in December 9999: there is no year 10000,
  and \<^verbatim>\<open>replace\<close> raises \<^verbatim>\<open>ValueError\<close>.
\<close>

theorem get_date_range_month_counterexample:
  "valid_datetime (dt_of 9999 12 15 10 0 0 0)
   \<and> get_date_range (ustr ''month'') (dt_of 9999 12 15 10 0 0 0) = Inl ValueError"
  by code_simp

section \<open>Properties of the string utilities\<close>

subsection \<open>\<^verbatim>\<open>sanitize_input\<close>\<close>

lemma collapse_ws_length: "length (collapse_ws s) \<le> length s"
proof (induction s rule: collapse_ws.induct)
  case 1
  show ?case by simp
next
  case (2 c cs)
  have "length (dropWhile py_isspace cs) \<le> length cs" by (rule length_dropWhile_le)
  with 2 show ?case by auto
qed

lemma collapse_ws_set: "set (collapse_ws s) \<subseteq> insert 32 (set s)"
proof (induction s rule: collapse_ws.induct)
  case 1
  show ?case by simp
next
  case (2 c cs)
  have "set (dropWhile py_isspace cs) \<subseteq> set cs" by (auto dest: set_dropWhileD)
  with 2 show ?case by auto
qed

lemma py_slice_to_length: "0 \<le> n \<Longrightarrow> int (length (py_slice_to xs n)) \<le> n"
  by (simp add: py_slice_to_def)

lemma py_slice_to_set: "set (py_slice_to xs n) \<subseteq> set xs"
  by (auto simp: py_slice_to_def dest: in_set_takeD)

text \<open>
  Claim C9. For every text and every non-negative \<open>max_length\<close>, the result of
  \<open>sanitize_input\<close> has at most \<open>max_length\<close> characters and contains none of the control
  characters 0x00-0x08, 0x0B, 0x0C, 0x0E-0x1F, 0x7F: the text is cut to \<open>max_length\<close> before
  the white space is collapsed, and collapsing only shortens it and only adds spaces.
\<close>

theorem sanitize_input_bounded:
  assumes "0 \<le> max_length"
  shows "int (length (sanitize_input input_text max_length)) \<le> max_length
         \<and> (\<forall>c. is_control c \<longrightarrow> c \<notin> set (sanitize_input input_text max_length))"
proof (cases "input_text = []")
  case True
  with assms show ?thesis by (simp add: sanitize_input_def)
next
  case False
  define a where "a = filter (\<lambda>c. \<not> is_control c) (py_strip input_text)"
  define b where "b = py_slice_to a max_length"
  have r: "sanitize_input input_text max_length = collapse_ws b"
    using False by (simp add: sanitize_input_def a_def b_def)
  have "int (length (collapse_ws b)) \<le> int (length b)"
    using collapse_ws_length [of b] by simp
  also have "\<dots> \<le> max_length" unfolding b_def using assms by (rule py_slice_to_length)
  finally have len: "int (length (collapse_ws b)) \<le> max_length" .
  have "set b \<subseteq> set a" unfolding b_def by (rule py_slice_to_set)
  then have "\<forall>c \<in> set b. \<not> is_control c" by (auto simp: a_def)
  moreover have "\<not> is_control 32" by (simp add: is_control_def)
  ultimately have "\<forall>c \<in> set (collapse_ws b). \<not> is_control c"
    using collapse_ws_set [of b] by auto
  with len r show ?thesis by auto
qed

theorem sanitize_input_bounded_witness:
  "int (length (sanitize_input [32, 0, 97, 7, 32, 9, 98, 127, 99, 32] 4)) \<le> 4
   \<and> sanitize_input [32, 0, 97, 7, 32, 9, 98, 127, 99, 32] 4 = [97, 32, 98]
   \<and> is_control 7 \<and> 7 \<notin> set (sanitize_input [32, 0, 97, 7, 32, 9, 98, 127, 99, 32] 4)"
proof -
  have e: "sanitize_input [32, 0, 97, 7, 32, 9, 98, 127, 99, 32] 4 = [97, 32, 98]"
    by code_simp
  have c: "is_control 7" by (simp add: is_control_def)
  from sanitize_input_bounded [of 4 "[32, 0, 97, 7, 32, 9, 98, 127, 99, 32]"] c
  show ?thesis using e by simp
qed

subsection \<open>\<^verbatim>\<open>format_phone_number\<close>\<close>

lemma filter_digits_clean: "list_all (\<lambda>c. 48 \<le> c \<and> c \<le> 57) p \<Longrightarrow> filter py_isdigit p = p"
  by (induction p) (auto simp: py_isdigit_def)

lemma filter_digits_ascii:
  "ascii s \<Longrightarrow> filter py_isdigit s = filter (\<lambda>c. 48 \<le> c \<and> c \<le> 57) s"
  by (induction s) (auto simp: py_isdigit_def ascii_def)

text \<open>
  Claim C3, as amended. For an ASCII country code, the digits of the formatted number are
  the digits of the country code followed by the ten digits of the clean number: the
  original digits come back only after the digits of the country code, and on their own
  only when the country code holds no digit.
\<close>

theorem format_phone_number_digits:
  assumes "clean_phone phone" and "ascii country_code"
  shows "filter py_isdigit (format_phone_number phone country_code)
           = filter (\<lambda>c. 48 \<le> c \<and> c \<le> 57) country_code @ phone"
proof -
  from assms(1) have len: "length phone = 10" and d: "filter py_isdigit phone = phone"
    by (simp_all add: clean_phone_def filter_digits_clean)
  from len have ne: "phone \<noteq> []" by auto
  have sp: "filter py_isdigit (ustr '' '') = []" by (simp add: ustr_def py_isdigit_def)
  have "format_phone_number phone country_code
          = country_code @ ustr '' '' @ take 5 phone @ ustr '' '' @ drop 5 phone"
    using ne len d by (simp add: format_phone_number_def)
  moreover have "filter py_isdigit (take 5 phone) @ filter py_isdigit (drop 5 phone) = phone"
    using d by (metis append_take_drop_id filter_append)
  ultimately show ?thesis using sp filter_digits_ascii [OF assms(2)] by simp
qed

theorem format_phone_number_digits_witness:
  "clean_phone (ustr ''9876543210'') \<and> ascii (ustr ''+91'')
   \<and> filter py_isdigit (format_phone_number (ustr ''9876543210'') (ustr ''+91''))
       = ustr ''919876543210''"
proof -
  have c: "clean_phone (ustr ''9876543210'')" by (simp add: clean_phone_def ustr_def)
  have a: "ascii (ustr ''+91'')" by (simp add: ascii_def ustr_def)
  have "filter (\<lambda>c. 48 \<le> c \<and> c \<le> 57) (ustr ''+91'') @ ustr ''9876543210''
          = ustr ''919876543210''"
    by (simp add: ustr_def)
  with format_phone_number_digits [OF c a] c a show ?thesis by simp
qed

text \<open>
  Claim C3 as stated fails with the default country code \<^verbatim>\<open>+91\<close>: the digits of
  \<^verbatim>\<open>+91 98765 43210\<close> are the twelve digits \<^verbatim>\<open>919876543210\<close>.
\<close>

theorem format_phone_number_roundtrip_counterexample:
  "clean_phone (ustr ''9876543210'')
   \<and> filter py_isdigit (format_phone_number (ustr ''9876543210'') (ustr ''+91''))
       \<noteq> ustr ''9876543210''"
  by code_simp

subsection \<open>\<^verbatim>\<open>capitalize_words\<close>\<close>

definition lowered :: "int \<Rightarrow> bool" where
  "lowered c \<longleftrightarrow> 0 \<le> c \<and> c < 128 \<and> \<not> (65 \<le> c \<and> c \<le> 90)"

definition is_word :: "pystr \<Rightarrow> bool" where
  "is_word w \<longleftrightarrow> w \<noteq> [] \<and> list_all (\<lambda>c. \<not> py_isspace c) w"

lemma py_lower_append: "py_lower (a @ b) = py_lower a @ py_lower b"
  by (simp add: py_lower_def)

lemma py_lower_Cons: "py_lower (c # cs) = lower_cp c @ py_lower cs"
  by (simp add: py_lower_def)

lemma py_lower_Nil: "py_lower [] = []"
  by (simp add: py_lower_def)

lemma py_split_words: "w \<in> set (py_split s) \<Longrightarrow> is_word w \<and> set w \<subseteq> set s"
proof (induction s arbitrary: w rule: py_split.induct)
  case (1 s)
  define s' where "s' = dropWhile py_isspace s"
  show ?case
  proof (cases "s' = []")
    case True
    with 1(2) show ?thesis by (simp add: py_split.simps [of s] s'_def)
  next
    case False
    let ?h = "takeWhile (\<lambda>x. \<not> py_isspace x) s'"
    let ?t = "dropWhile (\<lambda>x. \<not> py_isspace x) s'"
    have sub: "set s' \<subseteq> set s" unfolding s'_def by (auto dest: set_dropWhileD)
    from 1(2) False have "w = ?h \<or> w \<in> set (py_split ?t)"
      by (simp add: py_split.simps [of s] s'_def [symmetric] Let_def)
    then show ?thesis
    proof
      assume w: "w = ?h"
      have "\<not> py_isspace (hd s')"
        unfolding s'_def using False hd_dropWhile [of py_isspace s] s'_def by blast
      then have "?h \<noteq> []" using False by (cases s') auto
      moreover have "list_all (\<lambda>c. \<not> py_isspace c) ?h"
        by (auto simp: list_all_iff dest: set_takeWhileD)
      moreover have "set ?h \<subseteq> set s" using sub by (auto dest: set_takeWhileD)
      ultimately show ?thesis using w by (simp add: is_word_def)
    next
      assume "w \<in> set (py_split ?t)"
      with 1(1) [OF s'_def False] have "is_word w \<and> set w \<subseteq> set ?t" by simp
      moreover have "set ?t \<subseteq> set s" using sub by (auto dest: set_dropWhileD)
      ultimately show ?thesis by auto
    qed
  qed
qed

lemma py_split_Nil: "py_split [] = []"
  by (simp add: py_split.simps [of "[]"])

lemma py_split_space: "py_split (32 # s) = py_split s"
  by (simp add: py_split.simps [of "32 # s"] py_split.simps [of s] py_isspace_def)

lemma py_split_word_app:
  assumes "is_word w" and "rest = [] \<or> py_isspace (hd rest)"
  shows "py_split (w @ rest) = w # py_split rest"
proof -
  from assms(1) obtain c cs where w: "w = c # cs" and c: "\<not> py_isspace c"
    by (cases w) (auto simp: is_word_def)
  from assms(1) have all: "\<forall>x \<in> set w. \<not> py_isspace x" by (simp add: is_word_def list_all_iff)
  have d: "dropWhile py_isspace (w @ rest) = w @ rest" using w c by simp
  have t: "takeWhile (\<lambda>x. \<not> py_isspace x) (w @ rest) = w"
    using all assms(2) by (cases rest) (auto simp: takeWhile_append2)
  have r: "dropWhile (\<lambda>x. \<not> py_isspace x) (w @ rest) = rest"
    using all assms(2) by (cases rest) (auto simp: dropWhile_append2)
  have ne: "w \<noteq> []" using w by simp
  show ?thesis by (subst py_split.simps) (simp add: d t r ne Let_def)
qed

lemma py_split_join: "list_all is_word ws \<Longrightarrow> py_split (py_join [32] ws) = ws"
proof (induction "[32::int]" ws rule: py_join.induct)
  case 1
  show ?case by (simp add: py_split_Nil)
next
  case (2 w)
  then have "is_word w" by simp
  from py_split_word_app [OF this, of "[]"] show ?case by (simp add: py_split_Nil)
next
  case (3 w v ws)
  then have w: "is_word w" and ih: "py_split (py_join [32] (v # ws)) = v # ws" by simp_all
  have "py_split (w @ 32 # py_join [32] (v # ws)) = w # py_split (32 # py_join [32] (v # ws))"
    by (rule py_split_word_app [OF w]) (simp add: py_isspace_def)
  then show ?case using ih by (simp add: py_split_space)
qed

lemma py_lower_join: "py_lower (py_join [32] ws) = py_join [32] (map py_lower ws)"
  by (induction "[32::int]" ws rule: py_join.induct)
     (simp_all add: py_lower_append py_lower_Cons py_lower_Nil lower_cp_def)

lemma py_lower_lowered: "list_all lowered w \<Longrightarrow> py_lower w = w"
  by (induction w) (auto simp: py_lower_Cons py_lower_Nil lower_cp_def lowered_def)

lemma py_lower_capitalize: "list_all lowered w \<Longrightarrow> py_lower (py_capitalize w) = w"
  by (cases w)
     (auto simp: py_capitalize_def py_lower_append py_lower_Cons py_lower_Nil py_lower_lowered
                 title_cp_def lower_cp_def lowered_def)

lemma lowered_py_lower: "ascii s \<Longrightarrow> list_all lowered (py_lower s)"
  by (induction s) (auto simp: ascii_def py_lower_Cons py_lower_Nil lower_cp_def lowered_def)

lemma is_word_capitalize:
  assumes "is_word w" and "list_all lowered w"
  shows "is_word (py_capitalize w)"
proof -
  from assms obtain c cs where w: "w = c # cs" by (cases w) (auto simp: is_word_def)
  with assms have c: "\<not> py_isspace c" "lowered c" and cs: "list_all (\<lambda>c. \<not> py_isspace c) cs"
    "list_all lowered cs" by (simp_all add: is_word_def)
  have "title_cp c \<noteq> [] \<and> list_all (\<lambda>c. \<not> py_isspace c) (title_cp c)"
    using c by (auto simp: title_cp_def py_isspace_def lowered_def)
  then show ?thesis using cs w by (simp add: py_capitalize_def is_word_def py_lower_lowered)
qed

definition cap_word :: "nat \<times> pystr \<Rightarrow> pystr" where
  "cap_word = (\<lambda>(i, word). if i = 0 \<or> word \<notin> set lowercase_words then py_capitalize word else word)"

lemma capitalize_words_alt:
  "capitalize_words text =
     (if text = [] then [] else py_join [32] (map cap_word (enumerate 0 (py_split (py_lower text)))))"
  by (simp add: capitalize_words_def cap_word_def ustr_def Let_def)

text \<open>
  Claim C10, as amended. On ASCII text \<open>capitalize_words\<close> is idempotent: the words of the
  result, put into lower case, are the words of the lower-cased input, so the second pass
  capitalizes the same words at the same places.
\<close>

theorem capitalize_words_idempotent_ascii:
  assumes "ascii text"
  shows "capitalize_words (capitalize_words text) = capitalize_words text"
proof (cases "text = []")
  case True
  then show ?thesis by (simp add: capitalize_words_alt)
next
  case False
  define ws where "ws = py_split (py_lower text)"
  define rs where "rs = map cap_word (enumerate 0 ws)"
  have r: "capitalize_words text = py_join [32] rs"
    using False by (simp add: capitalize_words_alt ws_def rs_def)
  have low: "list_all lowered (py_lower text)" using assms by (rule lowered_py_lower)
  have words: "\<forall>w \<in> set ws. is_word w \<and> list_all lowered w"
  proof
    fix w assume "w \<in> set ws"
    then have "is_word w \<and> set w \<subseteq> set (py_lower text)" unfolding ws_def by (rule py_split_words)
    with low show "is_word w \<and> list_all lowered w" by (auto simp: list_all_iff)
  qed
  have el: "\<forall>p \<in> set (enumerate 0 ws). py_lower (cap_word p) = snd p \<and> is_word (cap_word p)"
  proof
    fix p assume "p \<in> set (enumerate 0 ws)"
    then have "snd p \<in> set ws"
      using set_zip_rightD [of "fst p" "snd p" "[0..<length ws]" ws]
      by (simp add: enumerate_eq_zip)
    with words have "is_word (snd p)" "list_all lowered (snd p)" by auto
    then show "py_lower (cap_word p) = snd p \<and> is_word (cap_word p)"
      by (cases p) (auto simp: cap_word_def py_lower_capitalize py_lower_lowered is_word_capitalize)
  qed
  have "map (py_lower \<circ> cap_word) (enumerate 0 ws) = map snd (enumerate 0 ws)"
    by (rule map_cong [OF refl]) (simp add: el)
  then have lrs: "map py_lower rs = ws" by (simp add: rs_def)
  have wrs: "list_all is_word rs" unfolding rs_def using el by (simp add: list_all_iff)
  have "py_split (py_lower (py_join [32] rs)) = ws"
    using lrs words by (simp add: py_lower_join py_split_join list_all_iff)
  then have "capitalize_words (py_join [32] rs)
               = (if py_join [32] rs = [] then [] else py_join [32] rs)"
    by (simp add: capitalize_words_alt rs_def)
  then show ?thesis using r by simp
qed

theorem capitalize_words_idempotent_ascii_witness:
  "ascii (ustr ''the  quick BROWN fox of the'') \<and>
   capitalize_words (ustr ''the  quick BROWN fox of the'') = ustr ''The Quick Brown Fox of the'' \<and>
   capitalize_words (ustr ''The Quick Brown Fox of the'') = ustr ''The Quick Brown Fox of the''"
proof -
  have a: "ascii (ustr ''the  quick BROWN fox of the'')" by code_simp
  have e: "capitalize_words (ustr ''the  quick BROWN fox of the'') = ustr ''The Quick Brown Fox of the''"
    by code_simp
  from capitalize_words_idempotent_ascii [OF a] a e show ?thesis by simp
qed

text \<open>
  Claim C10 as stated fails outside ASCII. The title case form of U+0149 is U+02BC U+004E;
  the second pass lower-cases its second code point and leaves the first, which has no
  case, as the head of the word.
\<close>

theorem capitalize_words_idempotent_counterexample:
  "capitalize_words [329] = [700, 78] \<and>
   capitalize_words (capitalize_words [329]) = [700, 110] \<and>
   capitalize_words (capitalize_words [329]) \<noteq> capitalize_words [329]"
  by code_simp

section \<open>Properties of the validators\<close>

subsection \<open>Rounding to a double\<close>


lemma round_half_even_int: "round_half_even (of_int k) = k"
  by (simp add: round_half_even_def)



lemma quotient_of_pos:
  assumes "0 < q" "quotient_of q = (n, d)"
  shows "0 < n" "0 < d" "q = of_int n / of_int d"
  using assms quotient_of_denom_pos [of q n d] quotient_of_div [of q n d]
  by (auto simp: zero_less_divide_iff)

lemma ilog2_bounds:
  assumes "0 < q"
  shows "2 powi (ilog2 q) \<le> q" and "q < 2 powi (ilog2 q + 1)"
proof -
  obtain n d where nd: "quotient_of q = (n, d)" by (cases "quotient_of q") auto
  note p = quotient_of_pos [OF assms nd]
  define k where "k = bitlen n - bitlen d"
  have bn: "(2::rat) powi (bitlen n - 1) \<le> of_int n" "of_int n < (2::rat) powi (bitlen n)"
  proof -
    from bitlen_bounds [OF p(1)] have "2 ^ nat (bitlen n - 1) \<le> n" "n < 2 ^ nat (bitlen n)" by simp_all
    then have "(of_int (2 ^ nat (bitlen n - 1)) :: rat) \<le> of_int n"
      "(of_int n :: rat) < of_int (2 ^ nat (bitlen n))" by (simp_all only: of_int_le_iff of_int_less_iff)
    moreover have "1 \<le> bitlen n" using p(1) by (simp add: bitlen_alt_def)
    ultimately show "(2::rat) powi (bitlen n - 1) \<le> of_int n" "of_int n < (2::rat) powi (bitlen n)"
      by (simp_all add: power_int_def)
  qed
  have bd: "(2::rat) powi (bitlen d - 1) \<le> of_int d" "of_int d < (2::rat) powi (bitlen d)"
  proof -
    from bitlen_bounds [OF p(2)] have "2 ^ nat (bitlen d - 1) \<le> d" "d < 2 ^ nat (bitlen d)" by simp_all
    then have "(of_int (2 ^ nat (bitlen d - 1)) :: rat) \<le> of_int d"
      "(of_int d :: rat) < of_int (2 ^ nat (bitlen d))" by (simp_all only: of_int_le_iff of_int_less_iff)
    moreover have "1 \<le> bitlen d" using p(2) by (simp add: bitlen_alt_def)
    ultimately show "(2::rat) powi (bitlen d - 1) \<le> of_int d" "of_int d < (2::rat) powi (bitlen d)"
      by (simp_all add: power_int_def)
  qed
  have dpos: "(0::rat) < of_int d" using p(2) by simp
  have lo: "(2::rat) powi (k - 1) < q"
  proof -
    have "(2::rat) powi (k - 1) * of_int d < 2 powi (k - 1) * 2 powi (bitlen d)"
      using bd(2) by (simp add: mult_strict_left_mono)
    also have "\<dots> = 2 powi (bitlen n - 1)"
      by (simp add: k_def power_int_add [symmetric])
    also have "\<dots> \<le> of_int n" by (rule bn(1))
    finally show ?thesis using dpos by (simp add: p(3) pos_less_divide_eq)
  qed
  have hi: "q < (2::rat) powi (k + 1)"
  proof -
    have "of_int n < (2::rat) powi (bitlen n)" by (rule bn(2))
    also have "\<dots> = 2 powi (k + 1) * 2 powi (bitlen d - 1)"
      by (simp add: k_def power_int_add [symmetric])
    also have "\<dots> \<le> 2 powi (k + 1) * of_int d"
      using bd(1) by (simp add: mult_left_mono)
    finally show ?thesis using dpos by (simp add: p(3) pos_divide_less_eq)
  qed
  have il: "ilog2 q = (if 2 powi k \<le> q then k else k - 1)"
    by (simp add: ilog2_def nd k_def Let_def)
  show "2 powi (ilog2 q) \<le> q" using lo by (simp add: il)
  show "q < 2 powi (ilog2 q + 1)" using hi by (auto simp: il)
qed




lemma pow2_mono: "a \<le> b \<Longrightarrow> (2::rat) powi a \<le> 2 powi b"
  by (rule power_int_increasing) simp_all

lemma pow2_less_imp: "(2::rat) powi a < 2 powi b \<Longrightarrow> a < b"
  using pow2_mono [of b a] by (cases "a < b") auto

lemma double_round_pos:
  assumes "0 < q"
  shows "double_round q =
           of_int (round_half_even (q / 2 powi (max (ilog2 q - 52) (- 1074))))
             * 2 powi (max (ilog2 q - 52) (- 1074))"
  using assms by (simp add: double_round_def Let_def)





lemma ilog2_less:
  assumes "0 < q" "q < 2 powi k"
  shows "ilog2 q < k"
  using ilog2_bounds(1) [OF assms(1)] assms(2) pow2_less_imp [of "ilog2 q" k] by simp

lemma ilog2_ge:
  assumes "0 < q" "2 powi k \<le> q"
  shows "k \<le> ilog2 q"
  using ilog2_bounds(2) [OF assms(1)] assms(2) pow2_less_imp [of k "ilog2 q + 1"] by simp

lemma double_round_int:
  assumes "0 < n" "n < 2 ^ 53"
  shows "double_round (of_int n) = of_int n"
proof -
  let ?q = "of_int n :: rat"
  have q: "0 < ?q" using assms(1) by simp
  have "?q < 2 powi 53"
  proof -
    have "?q < of_int (2 ^ 53)" using assms(2) by (simp only: of_int_less_iff)
    then show ?thesis by simp
  qed
  then have up: "ilog2 ?q < 53" by (rule ilog2_less [OF q])
  have "(2::rat) powi 0 \<le> ?q" using assms(1) by simp
  then have lo: "0 \<le> ilog2 ?q" by (rule ilog2_ge [OF q])
  define j where "j = nat (52 - ilog2 ?q)"
  have e: "max (ilog2 ?q - 52) (- 1074) = - int j" using up lo by (simp add: j_def)
  have pw: "(2::rat) powi (- int j) = 1 / 2 ^ j" by (simp add: power_int_minus field_simps)
  have "?q / 2 powi (- int j) = of_int (n * 2 ^ j)" by (simp add: pw)
  then have "round_half_even (?q / 2 powi (- int j)) = n * 2 ^ j"
    by (simp only: round_half_even_int)
  then show ?thesis by (simp add: double_round_pos [OF q] e pw)
qed



lemma float_of_int_exact:
  assumes "0 < n" "n < 2 ^ 53"
  shows "float_of_int n = Inr (Finite (of_int n))"
proof -
  have "(of_int n :: rat) < of_int (2 ^ 53)" using assms(2) by (simp only: of_int_less_iff)
  moreover have "(of_int (2 ^ 53) :: rat) < 2 ^ 1024" by simp
  ultimately have "\<bar>of_int n :: rat\<bar> < 2 ^ 1024" using assms(1) by simp
  then show ?thesis by (simp add: float_of_int_def double_round_int [OF assms] Let_def)
qed


subsection \<open>The outcome of a validator\<close>



lemma amount_checks_returns [simp]: "amount_checks x \<noteq> Inl e"
  by (simp add: amount_checks_def)











subsection \<open>\<^verbatim>\<open>validate_currency_amount\<close>\<close>

lemma digits_value_nonneg: "0 \<le> digits_value uni ds"
proof -
  have "0 \<le> a \<Longrightarrow> 0 \<le> foldl (\<lambda>a c. 10 * a + digit_value uni c) a ds" for a
    by (induction ds arbitrary: a) (auto simp: digit_value_def split: option.splits)
  then show ?thesis by (simp add: digits_value_def)
qed

lemma decimal_of_str_coefficient:
  assumes "decimal_of_str uni s = Inr (DFinite neg c e)"
  shows "0 \<le> c"
  using assms digits_value_nonneg [of uni]
  by (auto simp: decimal_of_str_def Let_def split: prod.splits if_splits)

lemma decimal_value_pos: "0 \<le> c \<Longrightarrow> 0 < decimal_value neg c e \<longleftrightarrow> \<not> neg \<and> c \<noteq> 0"
proof -
  assume c: "0 \<le> c"
  have p: "(0::rat) < 10 powi e" by (simp add: zero_less_power_int)
  show ?thesis
  proof (cases neg)
    case True
    have "of_int c * (10::rat) powi e \<ge> 0" using c p by simp
    with True show ?thesis by (simp add: decimal_value_def)
  next
    case False
    have "0 < of_int c * (10::rat) powi e \<longleftrightarrow> c \<noteq> 0"
      using c p by (auto simp: zero_less_mult_iff)
    with False show ?thesis by (simp add: decimal_value_def)
  qed
qed

lemma validate_currency_amount_required:
  assumes "amount_str = [] \<or> py_strip amount_str = []"
  shows "decimal_of_str uni (currency_cleaned amount_str currency_symbol) = Inl InvalidOperation"
proof -
  from assms have s: "py_strip amount_str = []" by (auto simp: py_strip_def)
  have e: "py_strip [] = []" by (simp add: py_strip_def)
  have "currency_cleaned amount_str currency_symbol = []"
    by (simp add: currency_cleaned_def s Let_def e)
  then show ?thesis
    by (simp add: decimal_of_str_def py_strip_def split_sign_def ascii_lower_def ustr_def)
qed

lemma validate_currency_amount_success:
  "validate_currency_amount uni amount_str currency_symbol = Inr (True, Some v, None)
   \<longleftrightarrow> (\<exists>neg c e. decimal_of_str uni (currency_cleaned amount_str currency_symbol)
                        = Inr (DFinite neg c e)
                  \<and> 0 < decimal_value neg c e \<and> - 2 \<le> e
                  \<and> v = float_of_rat (decimal_value neg c e))"
proof (cases "amount_str = [] \<or> py_strip amount_str = []")
  case True
  from validate_currency_amount_required [OF True, of uni currency_symbol] True
  show ?thesis by (simp add: validate_currency_amount_def)
next
  case False
  define r where "r = decimal_of_str uni (currency_cleaned amount_str currency_symbol)"
  show ?thesis
  proof (cases r)
    case (Inl e)
    with False show ?thesis
      by (auto simp: validate_currency_amount_def r_def [symmetric] catch_def ebind_def)
  next
    case (Inr d)
    show ?thesis
    proof (cases d)
      case (DFinite neg c e)
      have "0 \<le> c"
        using decimal_of_str_coefficient [of uni "currency_cleaned amount_str currency_symbol" neg c e]
          Inr DFinite by (simp add: r_def)
      from decimal_value_pos [OF this, of neg e] False Inr DFinite show ?thesis
        by (auto simp: validate_currency_amount_def r_def [symmetric] catch_def ebind_def
                       decimal_le_zero_def decimal_exponent_less_def float_of_decimal_def)
    next
      case (DInfinity neg)
      with False Inr show ?thesis
        by (auto simp: validate_currency_amount_def r_def [symmetric] catch_def ebind_def
                       decimal_le_zero_def decimal_exponent_less_def float_of_decimal_def)
    next
      case (DNaN s)
      with False Inr show ?thesis
        by (auto simp: validate_currency_amount_def r_def [symmetric] catch_def ebind_def
                       decimal_le_zero_def decimal_exponent_less_def float_of_decimal_def)
    qed
  qed
qed

lemma double_1234_56: "float_of_rat (123456 / 100) = Finite (2714826150374277 / 2199023255552)"
  by code_simp

lemma decimal_value_example: "decimal_value False 123456 (- 2) = 123456 / 100"
  by (simp add: decimal_value_def power_int_minus)

lemma parse_example:
  "decimal_of_str ascii_only (currency_cleaned (ustr ''Rs. 1,234.56'') (ustr ''Rs.''))
     = Inr (DFinite False 123456 (- 2))"
  by code_simp

text \<open>
  Claim C8. \<open>validate_currency_amount\<close> succeeds with the value \<open>v\<close> if and only if the text
  without the currency symbol and the commas is read as a finite \<^verbatim>\<open>Decimal\<close> that is
  greater than zero and whose exponent is at least \<open>- 2\<close>, and \<open>v\<close> is the double nearest to
  it. \<^verbatim>\<open>Rs. 1,234.567\<close> fails with the message of the decimal places, and \<^verbatim>\<open>Rs. 1,234.56\<close>
  succeeds with the double \<^verbatim>\<open>1234.56\<close>.
\<close>

theorem validate_currency_amount_succeeds_iff:
  "(validate_currency_amount uni amount_str currency_symbol = Inr (True, Some v, None)
    \<longleftrightarrow> (\<exists>neg c e. decimal_of_str uni (currency_cleaned amount_str currency_symbol)
                        = Inr (DFinite neg c e)
                  \<and> 0 < decimal_value neg c e \<and> - 2 \<le> e
                  \<and> v = float_of_rat (decimal_value neg c e)))
   \<and> validate_currency_amount ascii_only (ustr ''Rs. 1,234.567'') (ustr ''Rs.'')
       = Inr (False, None, Some (ustr ''Amount cannot have more than 2 decimal places''))
   \<and> validate_currency_amount ascii_only (ustr ''Rs. 1,234.56'') (ustr ''Rs.'')
       = Inr (True, Some (float_of_rat (123456 / 100)), None)
   \<and> float_of_rat (123456 / 100) = Finite (2714826150374277 / 2199023255552)"
proof -
  have a: "validate_currency_amount ascii_only (ustr ''Rs. 1,234.567'') (ustr ''Rs.'')
       = Inr (False, None, Some (ustr ''Amount cannot have more than 2 decimal places''))"
    by code_simp
  have "0 < decimal_value False 123456 (- 2)" by (simp add: decimal_value_example)
  with parse_example
  have b: "validate_currency_amount ascii_only (ustr ''Rs. 1,234.56'') (ustr ''Rs.'')
       = Inr (True, Some (float_of_rat (123456 / 100)), None)"
    unfolding validate_currency_amount_success decimal_value_example [symmetric] by blast
  from validate_currency_amount_success a b double_1234_56 show ?thesis by blast
qed

subsection \<open>\<^verbatim>\<open>validate_amount\<close>\<close>







lemma not_digit_point [simp]: "\<not> is_decimal_digit uni 46" "\<not> is_decimal_digit uni 45"
  by (simp_all add: is_decimal_digit_def decimal_digit_def)






















subsection \<open>\<^verbatim>\<open>format_file_size\<close>\<close>

text \<open>
  Claim C6. \<open>format_file_size\<close> raises on integer inputs: \<^verbatim>\<open>ValueError\<close> on every negative
  size, and an exception on every size whose unit index is 5 or more, past the five units
  from \<^verbatim>\<open>B\<close> to \<^verbatim>\<open>TB\<close>; with the exact logarithm, on every size from \<open>2 ^ 50\<close> on. On the size
  \<open>2 ^ 51\<close> it is \<^verbatim>\<open>IndexError\<close>.
\<close>

theorem format_file_size_raises:
  "(size_bytes < 0 \<longrightarrow> format_file_size log_floor float_repr size_bytes = Inl ValueError)
   \<and> (0 < size_bytes \<and> 5 \<le> log_floor size_bytes \<longrightarrow>
        (\<exists>e. format_file_size log_floor float_repr size_bytes = Inl e))"
proof (intro conjI impI)
  assume "size_bytes < 0"
  then show "format_file_size log_floor float_repr size_bytes = Inl ValueError"
    by (simp add: format_file_size_def)
next
  assume a: "0 < size_bytes \<and> 5 \<le> log_floor size_bytes"
  then have n: "\<not> log_floor size_bytes < length size_names" by (simp add: size_names_def)
  show "\<exists>e. format_file_size log_floor float_repr size_bytes = Inl e"
  proof (cases "float_of_int size_bytes")
    case (Inl e)
    with a show ?thesis by (auto simp: format_file_size_def Let_def ebind_def)
  next
    case (Inr x)
    with a n show ?thesis by (auto simp: format_file_size_def Let_def ebind_def)
  qed
qed

theorem format_file_size_raises_witness:
  "format_file_size (\<lambda>n. nat ((bitlen n - 1) div 10)) (\<lambda>x. []) 2251799813685248 = Inl IndexError
   \<and> format_file_size (\<lambda>n. nat ((bitlen n - 1) div 10)) (\<lambda>x. []) (- 1) = Inl ValueError"
proof -
  have b: "bitlen 2251799813685248 = 52" by code_simp
  have f: "float_of_int 2251799813685248 = Inr (Finite 2251799813685248)"
    using float_of_int_exact [of 2251799813685248] by simp
  have "format_file_size (\<lambda>n. nat ((bitlen n - 1) div 10)) (\<lambda>x. []) 2251799813685248
          = Inl IndexError"
    by (simp add: format_file_size_def b f ebind_def size_names_def Let_def)
  with format_file_size_raises
         [of "- 1" "\<lambda>n. nat ((bitlen n - 1) div 10)" "\<lambda>x. []"]
       format_file_size_raises
         [of 2251799813685248 "\<lambda>n. nat ((bitlen n - 1) div 10)" "\<lambda>x. []"]
  show ?thesis by simp
qed

end

